theory Spec2Isabelle
  imports Main "HOL-Library.AList" "HOL-Library.Multiset" "HOL-Library.List_Lexorder" "HOL-Library.Char_ord"
begin

section \<open>Data model of \<open>src/lib/dependency_graph.ts\<close>\<close>

text \<open>
  Strings are \<open>string\<close>. A JavaScript \<open>Map\<close> is an association list in insertion order:
  \<open>Map.set\<close> is \<open>AList.update\<close> (an existing key keeps its position and gets the new
  value, a new key is appended), \<open>Map.get\<close> is \<open>map_of\<close>, \<open>Map.has\<close> is \<open>map_has\<close>.
  A JavaScript \<open>Set\<close> is a list in insertion order, \<open>Set.add\<close> is \<open>set_add\<close>.
  A \<open>Record<string, string>\<close> of a manifest is the list \<open>Object.entries\<close> yields for it.
\<close>

datatype DependencyType = Prod | Peer | Dev

record DependencySpec =
  spec_type :: DependencyType
  spec_version :: string
  spec_resolved :: "string option"

record PackageJson =
  pkg_version :: "string option"
  pkg_private :: "bool option"
  pkg_dependencies :: "(string \<times> string) list option"
  pkg_devDependencies :: "(string \<times> string) list option"
  pkg_peerDependencies :: "(string \<times> string) list option"

record Library =
  library_name :: string
  package_json :: PackageJson

record LocalRepo =
  library :: Library

record DependencyNode =
  name :: string
  version :: string
  repo :: "LocalRepo option"
  dependencies :: "(string \<times> DependencySpec) list"
  dependents :: "string list"
  publishable :: bool

record DependencyGraph =
  nodes :: "(string \<times> DependencyNode) list"
  edges :: "(string \<times> string list) list"

datatype error = TypeError | Error "string list"

definition map_has :: "('k \<times> 'v) list \<Rightarrow> 'k \<Rightarrow> bool" where
  "map_has m k = (k \<in> set (map fst m))"

definition set_add :: "'a \<Rightarrow> 'a list \<Rightarrow> 'a list" where
  "set_add x xs = (if x \<in> set xs then xs else xs @ [x])"

definition set_delete :: "'a \<Rightarrow> 'a list \<Rightarrow> 'a list" where
  "set_delete x xs = filter (\<lambda>y. y \<noteq> x) xs"

definition new_graph :: DependencyGraph where
  "new_graph = \<lparr>nodes = [], edges = []\<rparr>"

section \<open>\<open>DependencyGraph.init_from_repos\<close>\<close>

definition mk_spec :: "DependencyType \<Rightarrow> string \<Rightarrow> DependencySpec" where
  "mk_spec t v = \<lparr>spec_type = t, spec_version = v, spec_resolved = None\<rparr>"

text \<open>The three loops of lines 81 to 92: prod entries are set, peer entries are set over
  them, dev entries are set only where the name is not present yet.\<close>

definition merge_sections ::
  "(string \<times> string) list \<Rightarrow> (string \<times> string) list \<Rightarrow> (string \<times> string) list
    \<Rightarrow> (string \<times> DependencySpec) list" where
  "merge_sections deps peer_deps dev_deps =
     (let m1 = fold (\<lambda>(n, v) m. AList.update n (mk_spec Prod v) m) deps [];
          m2 = fold (\<lambda>(n, v) m. AList.update n (mk_spec Peer v) m) peer_deps m1
      in fold (\<lambda>(n, v) m. if map_has m n then m else AList.update n (mk_spec Dev v) m)
           dev_deps m2)"

definition or_empty :: "(string \<times> string) list option \<Rightarrow> (string \<times> string) list" where
  "or_empty r = (case r of None \<Rightarrow> [] | Some d \<Rightarrow> d)"

text \<open>The node built for one repo in the first pass (lines 62 to 92).\<close>

definition create_node :: "LocalRepo \<Rightarrow> DependencyNode" where
  "create_node r =
     (let pj = package_json (library r) in
      \<lparr>name = library_name (library r),
       version = (case pkg_version pj of None \<Rightarrow> ''0.0.0''
                  | Some v \<Rightarrow> if v = [] then ''0.0.0'' else v),
       repo = Some r,
       dependencies = merge_sections (or_empty (pkg_dependencies pj))
                        (or_empty (pkg_peerDependencies pj)) (or_empty (pkg_devDependencies pj)),
       dependents = [],
       publishable = (case pkg_private pj of None \<Rightarrow> True | Some p \<Rightarrow> \<not> p)\<rparr>)"

definition add_repo :: "LocalRepo \<Rightarrow> DependencyGraph \<Rightarrow> DependencyGraph" where
  "add_repo r g =
     g\<lparr>nodes := AList.update (library_name (library r)) (create_node r) (nodes g),
       edges := AList.update (library_name (library r)) [] (edges g)\<rparr>"

text \<open>Second pass, lines 99 to 108. \<open>this.edges.get(dep_name)!\<close> is a \<open>TypeError\<close> at run
  time when the key is absent.\<close>

definition add_dependent :: "string \<Rightarrow> string \<Rightarrow> DependencyGraph \<Rightarrow> error + DependencyGraph" where
  "add_dependent node_name dep_name g =
     (case map_of (nodes g) dep_name of
        None \<Rightarrow> Inr g
      | Some dep_node \<Rightarrow>
          (case map_of (edges g) dep_name of
             None \<Rightarrow> Inl TypeError
           | Some tos \<Rightarrow>
               Inr (g\<lparr>nodes := AList.update dep_name
                                (dep_node\<lparr>dependents := set_add node_name (dependents dep_node)\<rparr>)
                                (nodes g),
                      edges := AList.update dep_name (set_add node_name tos) (edges g)\<rparr>)))"

fun add_dependents :: "string \<Rightarrow> string list \<Rightarrow> DependencyGraph \<Rightarrow> error + DependencyGraph" where
  "add_dependents node_name [] g = Inr g"
| "add_dependents node_name (dep_name # rest) g =
     (case add_dependent node_name dep_name g of
        Inl e \<Rightarrow> Inl e
      | Inr g' \<Rightarrow> add_dependents node_name rest g')"

text \<open>The outer loop runs over \<open>this.nodes.values()\<close>; the pass changes only the
  \<open>dependents\<close> of the stored nodes, so the names and dependency keys it reads are those
  of the nodes as they are when the pass starts.\<close>

fun build_edges :: "DependencyNode list \<Rightarrow> DependencyGraph \<Rightarrow> error + DependencyGraph" where
  "build_edges [] g = Inr g"
| "build_edges (node # rest) g =
     (case add_dependents (name node) (map fst (dependencies node)) g of
        Inl e \<Rightarrow> Inl e
      | Inr g' \<Rightarrow> build_edges rest g')"

definition init_from_repos :: "DependencyGraph \<Rightarrow> LocalRepo list \<Rightarrow> error + DependencyGraph" where
  "init_from_repos g repos =
     (let g1 = fold add_repo repos g in build_edges (map snd (nodes g1)) g1)"

definition build_from_repos :: "LocalRepo list \<Rightarrow> error + DependencyGraph" where
  "build_from_repos repos = init_from_repos new_graph repos"

section \<open>Queries\<close>

definition get_node :: "DependencyGraph \<Rightarrow> string \<Rightarrow> DependencyNode option" where
  "get_node g n = map_of (nodes g) n"

definition get_dependents :: "DependencyGraph \<Rightarrow> string \<Rightarrow> string list" where
  "get_dependents g n = (case map_of (edges g) n of None \<Rightarrow> [] | Some s \<Rightarrow> s)"

definition get_dependencies :: "DependencyGraph \<Rightarrow> string \<Rightarrow> (string \<times> DependencySpec) list" where
  "get_dependencies g n = (case map_of (nodes g) n of None \<Rightarrow> [] | Some node \<Rightarrow> dependencies node)"

section \<open>\<open>DependencyGraph.topological_sort\<close>\<close>

text \<open>An item handed to the generic sort: \<open>id\<close> and \<open>depends_on\<close>.\<close>

type_synonym Sortable = "string \<times> string list"

text \<open>Modelled from the spec: \<open>topological_sort\<close> of the imported package
  \<open>@fuzdev/fuz_util/sort.js\<close>, whose code is not part of the source tree. Spec 4.1:
  "Kahn's-algorithm-style repeated removal of zero-indegree nodes over the filtered
  subgraph. Ties broken by original node insertion order. Fails with an ordering error if
  nodes remain unresolved after no more zero-indegree nodes exist"; spec 7: the error
  "carries the set of unresolved node names". The in-degree of an item is the number of
  its \<open>depends_on\<close> entries that are still to be removed.\<close>

definition indegree :: "Sortable list \<Rightarrow> Sortable \<Rightarrow> nat" where
  "indegree remaining item = length (filter (\<lambda>d. d \<in> set (map fst remaining)) (snd item))"

text \<open>Modelled from the spec: the removal loop of the imported \<open>topological_sort\<close> (spec 4.1,
  "repeated removal of zero-indegree nodes", "ties broken by original node insertion order",
  "fails with an ordering error if nodes remain unresolved after no more zero-indegree nodes
  exist"). The first item of in-degree zero is removed and appended to the result; when there
  is none, the result is returned if nothing remains, and the remaining names otherwise.\<close>

function remove_zero_indegree :: "Sortable list \<Rightarrow> Sortable list \<Rightarrow> string list + Sortable list" where
  "remove_zero_indegree remaining sorted_items =
     (case find (\<lambda>item. indegree remaining item = 0) remaining of
        None \<Rightarrow> if remaining = [] then Inr sorted_items else Inl (map fst remaining)
      | Some item \<Rightarrow> remove_zero_indegree (remove1 item remaining) (sorted_items @ [item]))"
  by pat_completeness auto
termination
proof (relation "measure (\<lambda>(remaining, sorted_items). length remaining)")
  show "wf (measure (\<lambda>(remaining, sorted_items). length remaining))" by simp
next
  fix remaining sorted_items :: "Sortable list" and item
  assume "find (\<lambda>item. indegree remaining item = 0) remaining = Some item"
  then have "item \<in> set remaining"
    by (auto simp: find_Some_iff)
  then have "length (remove1 item remaining) < length remaining"
    using length_pos_if_in_set [of item remaining] by (simp add: length_remove1)
  then show "((remove1 item remaining, sorted_items @ [item]), (remaining, sorted_items))
      \<in> measure (\<lambda>(remaining, sorted_items). length remaining)"
    by simp
qed

text \<open>Modelled from the spec: \<open>topological_sort\<close> of \<open>@fuzdev/fuz_util/sort.js\<close>, imported as
  \<open>topological_sort_generic\<close>; \<open>Inl\<close> is its result with \<open>ok\<close> false.\<close>

definition topological_sort_generic :: "Sortable list \<Rightarrow> string list + Sortable list" where
  "topological_sort_generic items = remove_zero_indegree items []"

text \<open>Lines 136 to 144: the dependency names a node hands to the sort.\<close>

definition depends_on :: "DependencyGraph \<Rightarrow> bool \<Rightarrow> DependencyNode \<Rightarrow> string list" where
  "depends_on g exclude_dev node =
     map fst (filter (\<lambda>(dep_name, spec).
                if exclude_dev \<and> spec_type spec = Dev then False else map_has (nodes g) dep_name)
              (dependencies node))"

definition topological_sort :: "DependencyGraph \<Rightarrow> bool \<Rightarrow> error + string list" where
  "topological_sort g exclude_dev =
     (let items = map (\<lambda>node. (name node, depends_on g exclude_dev node)) (map snd (nodes g))
      in case topological_sort_generic items of
           Inl unresolved \<Rightarrow> Inl (Error unresolved)
         | Inr sorted_items \<Rightarrow> Inr (map fst sorted_items))"

section \<open>\<open>DependencyGraph.detect_cycles_by_type\<close>\<close>

text \<open>The three mutable locals of \<open>#find_cycles\<close>.\<close>

record dfs_state =
  cycles :: "string list list"
  visited :: "string list"
  rec_stack :: "string list"

fun join :: "string \<Rightarrow> string list \<Rightarrow> string" where
  "join sep [] = []"
| "join sep [x] = x"
| "join sep (x # y # ys) = x @ sep @ join sep (y # ys)"

text \<open>\<open>[...cycle].sort().join(',')\<close>: the default sort compares strings by code unit.\<close>

definition cycle_key :: "string list \<Rightarrow> string" where
  "cycle_key c = join '','' (sort c)"

text \<open>\<open>Array.indexOf\<close> gives -1 for an absent element, and \<open>Array.slice\<close> counts a
  negative start from the end.\<close>

fun indexOf :: "'a list \<Rightarrow> 'a \<Rightarrow> int" where
  "indexOf [] x = -1"
| "indexOf (y # ys) x = (if y = x then 0 else (let i = indexOf ys x in if i < 0 then -1 else i + 1))"

definition slice :: "'a list \<Rightarrow> int \<Rightarrow> 'a list" where
  "slice xs start =
     (if start < 0 then drop (nat (int (length xs) + start)) xs else drop (nat start) xs)"

text \<open>Lines 192 to 198: the cycle closed by a back edge to \<open>dep_name\<close>.\<close>

definition record_cycle :: "string list \<Rightarrow> string \<Rightarrow> dfs_state \<Rightarrow> dfs_state" where
  "record_cycle path dep_name st =
     (let cycle_start = indexOf path dep_name;
          cycle = slice path cycle_start @ [dep_name];
          key = cycle_key cycle;
          exists = list_ex (\<lambda>c. cycle_key c = key) (cycles st)
      in if \<not> exists then st\<lparr>cycles := cycles st @ [cycle]\<rparr> else st)"

text \<open>The recursive closure \<open>dfs\<close> and its loop over the dependencies of a node. The
  first argument bounds the depth of the recursion; \<open>None\<close> means the bound was reached.
  \<open>path\<close> is the array after \<open>path.push(name)\<close>; a recursive call gets a copy of it.\<close>

fun dfs :: "nat \<Rightarrow> DependencyGraph \<Rightarrow> (DependencySpec \<Rightarrow> bool) \<Rightarrow> string \<Rightarrow> string list
              \<Rightarrow> dfs_state \<Rightarrow> dfs_state option"
and dfs_deps :: "nat \<Rightarrow> DependencyGraph \<Rightarrow> (DependencySpec \<Rightarrow> bool) \<Rightarrow> string list
              \<Rightarrow> (string \<times> DependencySpec) list \<Rightarrow> dfs_state \<Rightarrow> dfs_state option" where
  "dfs 0 g include_spec nm path st = None"
| "dfs (Suc fuel) g include_spec nm path st =
     (let st1 = st\<lparr>visited := set_add nm (visited st), rec_stack := set_add nm (rec_stack st)\<rparr>;
          path1 = path @ [nm]
      in case (case map_of (nodes g) nm of
                 None \<Rightarrow> Some st1
               | Some node \<Rightarrow> dfs_deps fuel g include_spec path1 (dependencies node) st1) of
           None \<Rightarrow> None
         | Some st2 \<Rightarrow> Some (st2\<lparr>rec_stack := set_delete nm (rec_stack st2)\<rparr>))"
| "dfs_deps fuel g include_spec path [] st = Some st"
| "dfs_deps fuel g include_spec path ((dep_name, spec) # rest) st =
     (if \<not> include_spec spec then dfs_deps fuel g include_spec path rest st
      else if map_has (nodes g) dep_name then
        (if dep_name \<notin> set (visited st) then
           (case dfs fuel g include_spec dep_name path st of
              None \<Rightarrow> None
            | Some st' \<Rightarrow> dfs_deps fuel g include_spec path rest st')
         else if dep_name \<in> set (rec_stack st) then
           dfs_deps fuel g include_spec path rest (record_cycle path dep_name st)
         else dfs_deps fuel g include_spec path rest st)
      else dfs_deps fuel g include_spec path rest st)"

text \<open>Lines 207 to 211: the loop over \<open>this.nodes.keys()\<close>.\<close>

fun dfs_roots :: "nat \<Rightarrow> DependencyGraph \<Rightarrow> (DependencySpec \<Rightarrow> bool) \<Rightarrow> string list
              \<Rightarrow> dfs_state \<Rightarrow> dfs_state option" where
  "dfs_roots fuel g include_spec [] st = Some st"
| "dfs_roots fuel g include_spec (nm # rest) st =
     (if nm \<notin> set (visited st) then
        (case dfs fuel g include_spec nm [] st of
           None \<Rightarrow> None
         | Some st' \<Rightarrow> dfs_roots fuel g include_spec rest st')
      else dfs_roots fuel g include_spec rest st)"

text \<open>A recursion visits a node once, so its depth is at most the number of nodes.\<close>

definition find_cycles :: "DependencyGraph \<Rightarrow> (DependencySpec \<Rightarrow> bool) \<Rightarrow> string list list option" where
  "find_cycles g include_spec =
     map_option cycles
       (dfs_roots (Suc (length (nodes g))) g include_spec (map fst (nodes g))
          \<lparr>cycles = [], visited = [], rec_stack = []\<rparr>)"

definition detect_cycles_by_type :: "DependencyGraph \<Rightarrow> (string list list \<times> string list list) option" where
  "detect_cycles_by_type g =
     (case find_cycles g (\<lambda>spec. spec_type spec \<noteq> Dev) of
        None \<Rightarrow> None
      | Some production_cycles \<Rightarrow>
          (case find_cycles g (\<lambda>spec. spec_type spec = Dev) of
             None \<Rightarrow> None
           | Some dev_cycles \<Rightarrow> Some (production_cycles, dev_cycles)))"

section \<open>\<open>DependencyGraphBuilder\<close>\<close>

definition compute_publishing_order :: "DependencyGraph \<Rightarrow> error + string list" where
  "compute_publishing_order g = topological_sort g True"

text \<open>Lines 282 to 292: the two scans of \<open>analyze\<close>, pushing onto \<open>wildcard_deps\<close> and
  \<open>missing_peers\<close>.\<close>

fun scan_deps :: "DependencyGraph \<Rightarrow> string \<Rightarrow> (string \<times> DependencySpec) list
    \<Rightarrow> (string \<times> string \<times> string) list \<times> (string \<times> string) list
    \<Rightarrow> (string \<times> string \<times> string) list \<times> (string \<times> string) list" where
  "scan_deps g pkg [] acc = acc"
| "scan_deps g pkg ((dep_name, spec) # rest) (wildcard_deps, missing_peers) =
     (let wildcard_deps' = (if spec_version spec = ''*''
                            then wildcard_deps @ [(pkg, dep_name, spec_version spec)]
                            else wildcard_deps);
          missing_peers' = (if spec_type spec = Peer \<and> \<not> map_has (nodes g) dep_name
                            then missing_peers @ [(pkg, dep_name)]
                            else missing_peers)
      in scan_deps g pkg rest (wildcard_deps', missing_peers'))"

fun scan_nodes :: "DependencyGraph \<Rightarrow> DependencyNode list
    \<Rightarrow> (string \<times> string \<times> string) list \<times> (string \<times> string) list
    \<Rightarrow> (string \<times> string \<times> string) list \<times> (string \<times> string) list" where
  "scan_nodes g [] acc = acc"
| "scan_nodes g (node # rest) acc = scan_nodes g rest (scan_deps g (name node) (dependencies node) acc)"

record Analysis =
  production_cycles :: "string list list"
  dev_cycles :: "string list list"
  wildcard_deps :: "(string \<times> string \<times> string) list"
  missing_peers :: "(string \<times> string) list"

definition analyze :: "DependencyGraph \<Rightarrow> Analysis option" where
  "analyze g =
     (case detect_cycles_by_type g of
        None \<Rightarrow> None
      | Some (pc, dc) \<Rightarrow>
          (let (wd, mp) = scan_nodes g (map snd (nodes g)) ([], [])
           in Some \<lparr>production_cycles = pc, dev_cycles = dc, wildcard_deps = wd, missing_peers = mp\<rparr>))"

section \<open>\<open>DependencyGraph.toJSON\<close>\<close>

record NodeJson =
  json_name :: string
  json_version :: string
  json_dependencies :: "(string \<times> DependencySpec) list"
  json_dependents :: "string list"
  json_publishable :: bool

record DependencyGraphJson =
  json_nodes :: "NodeJson list"
  json_edges :: "(string \<times> string) list"

text \<open>Lines 229 to 233: the two loops that push one \<open>{from, to}\<close> entry for every dependent
  of every key of \<open>this.edges\<close>.\<close>

fun push_tos :: "string \<Rightarrow> string list \<Rightarrow> (string \<times> string) list \<Rightarrow> (string \<times> string) list" where
  "push_tos from_name [] acc = acc"
| "push_tos from_name (to_name # tos) acc = push_tos from_name tos (acc @ [(from_name, to_name)])"

fun push_edges :: "(string \<times> string list) list \<Rightarrow> (string \<times> string) list \<Rightarrow> (string \<times> string) list" where
  "push_edges [] acc = acc"
| "push_edges ((from_name, tos) # rest) acc = push_edges rest (push_tos from_name tos acc)"

definition toJSON :: "DependencyGraph \<Rightarrow> DependencyGraphJson" where
  "toJSON g =
     \<lparr>json_nodes = map (\<lambda>node. \<lparr>json_name = name node, json_version = version node,
                                json_dependencies = dependencies node,
                                json_dependents = dependents node,
                                json_publishable = publishable node\<rparr>) (map snd (nodes g)),
      json_edges = push_edges (edges g) []\<rparr>"

section \<open>Notions used in the statements and proofs\<close>

text \<open>What the second pass does to a graph: the keys stay, and the dependents recorded for
  a key \<open>k\<close> (in \<open>edges\<close> and in the node) grow by the set \<open>A k\<close>.\<close>

definition grows :: "DependencyGraph \<Rightarrow> DependencyGraph \<Rightarrow> (string \<Rightarrow> string set) \<Rightarrow> bool" where
  "grows g g' A \<longleftrightarrow>
     map fst (nodes g') = map fst (nodes g) \<and> map fst (edges g') = map fst (edges g) \<and>
     (\<forall>k s. map_of (edges g) k = Some s \<longrightarrow>
        (\<exists>s'. map_of (edges g') k = Some s' \<and> set s' = set s \<union> A k \<and> (distinct s \<longrightarrow> distinct s'))) \<and>
     (\<forall>k node. map_of (nodes g) k = Some node \<longrightarrow>
        (\<exists>ds. map_of (nodes g') k = Some (node\<lparr>dependents := ds\<rparr>) \<and>
              set ds = set (dependents node) \<union> A k \<and> (distinct (dependents node) \<longrightarrow> distinct ds)))"

text \<open>A graph as the builder leaves it: a \<open>Map\<close> holds a key once, and a node is stored
  under its own name.\<close>

definition wf_graph :: "DependencyGraph \<Rightarrow> bool" where
  "wf_graph g \<longleftrightarrow> distinct (map fst (nodes g)) \<and> list_all (\<lambda>(k, node). name node = k) (nodes g)"

definition repo_name :: "LocalRepo \<Rightarrow> string" where
  "repo_name r = library_name (library r)"

text \<open>A repo with the given name, version and sections (prod, peer, dev), for concrete
  instances.\<close>

definition mk_repo :: "string \<Rightarrow> string option \<Rightarrow> (string \<times> string) list \<Rightarrow> (string \<times> string) list
    \<Rightarrow> (string \<times> string) list \<Rightarrow> LocalRepo" where
  "mk_repo n v deps peer_deps dev_deps =
     \<lparr>library = \<lparr>library_name = n,
                 package_json = \<lparr>pkg_version = v, pkg_private = None, pkg_dependencies = Some deps,
                                  pkg_devDependencies = Some dev_deps,
                                  pkg_peerDependencies = Some peer_deps\<rparr>\<rparr>\<rparr>"

text \<open>The graph after the first pass of \<open>init_from_repos\<close> on a new graph.\<close>

definition pass1 :: "LocalRepo list \<Rightarrow> DependencyGraph" where
  "pass1 repos = fold add_repo repos new_graph"

text \<open>The graph nodes whose dependency mapping has the key \<open>n\<close>.\<close>

definition dependents_of :: "DependencyGraph \<Rightarrow> string \<Rightarrow> string set" where
  "dependents_of g n = {m. \<exists>node. map_of (nodes g) m = Some node \<and> n \<in> fst ` set (dependencies node)}"

text \<open>The three manifest sections of a repo, as \<open>init_from_repos\<close> reads them.\<close>

definition prod_section :: "LocalRepo \<Rightarrow> (string \<times> string) list" where
  "prod_section r = or_empty (pkg_dependencies (package_json (library r)))"

definition peer_section :: "LocalRepo \<Rightarrow> (string \<times> string) list" where
  "peer_section r = or_empty (pkg_peerDependencies (package_json (library r)))"

definition dev_section :: "LocalRepo \<Rightarrow> (string \<times> string) list" where
  "dev_section r = or_empty (pkg_devDependencies (package_json (library r)))"

text \<open>The items \<open>topological_sort\<close> hands to the generic sort (lines 136 to 144).\<close>

definition sort_items :: "DependencyGraph \<Rightarrow> bool \<Rightarrow> Sortable list" where
  "sort_items g exclude_dev = map (\<lambda>node. (name node, depends_on g exclude_dev node)) (map snd (nodes g))"

text \<open>The edges \<open>topological_sort\<close> keeps, as pairs (dependency, dependent): the target
  is a graph node, and the spec is not of type dev when \<open>exclude_dev\<close> is true.\<close>

definition retained_edges :: "DependencyGraph \<Rightarrow> bool \<Rightarrow> (string \<times> string) set" where
  "retained_edges g exclude_dev =
     {(d, n). \<exists>node spec. map_of (nodes g) n = Some node \<and> (d, spec) \<in> set (dependencies node) \<and>
                map_has (nodes g) d \<and> \<not> (exclude_dev \<and> spec_type spec = Dev)}"

text \<open>The dependency relation of a list of sort items: pairs (dependency, dependent), for
  the dependencies that are items themselves.\<close>

definition item_rel :: "Sortable list \<Rightarrow> (string \<times> string) set" where
  "item_rel items = {(d, n). \<exists>deps. (n, deps) \<in> set items \<and> d \<in> set deps \<and> d \<in> fst ` set items}"

text \<open>Every item comes after those of its dependencies that are in \<open>A\<close>.\<close>

definition in_order :: "string set \<Rightarrow> Sortable list \<Rightarrow> bool" where
  "in_order A xs \<longleftrightarrow> (\<forall>i < length xs. set (snd (xs ! i)) \<inter> A \<subseteq> fst ` set (take i xs))"

text \<open>\<open>a\<close> occurs in \<open>xs\<close> before the first \<open>b\<close>.\<close>

definition precedes :: "'a \<Rightarrow> 'a \<Rightarrow> 'a list \<Rightarrow> bool" where
  "precedes a b xs \<longleftrightarrow> b \<in> set xs \<and> a \<in> set (takeWhile (\<lambda>x. x \<noteq> b) xs)"

text \<open>No item has in-degree zero.\<close>

definition stuck :: "Sortable list \<Rightarrow> bool" where
  "stuck rest \<longleftrightarrow> (\<forall>item \<in> set rest. indegree rest item \<noteq> 0)"

text \<open>The elements on a cycle of a relation, and those reachable from one.\<close>

definition blocked :: "(string \<times> string) set \<Rightarrow> string set" where
  "blocked r = {n. \<exists>c. (c, c) \<in> r\<^sup>+ \<and> (c, n) \<in> r\<^sup>*}"

text \<open>A node with the given name, dependencies and dependents, for concrete instances.\<close>

definition mk_node :: "string \<Rightarrow> (string \<times> DependencySpec) list \<Rightarrow> string list \<Rightarrow> DependencyNode" where
  "mk_node n deps dependents_of_n =
     \<lparr>name = n, version = ''1.0.0'', repo = None, dependencies = deps,
      dependents = dependents_of_n, publishable = True\<rparr>"

text \<open>The cycle array of lines 192 and 193, closed by a back edge to \<open>d\<close>.\<close>

definition back_cycle :: "string list \<Rightarrow> string \<Rightarrow> string list" where
  "back_cycle path d = slice path (indexOf path d) @ [d]"

text \<open>What holds of the cycles found so far: no two have the same node set or the same key,
  and all their nodes are visited.\<close>

definition cycles_ok :: "dfs_state \<Rightarrow> bool" where
  "cycles_ok st \<longleftrightarrow> distinct (map set (cycles st)) \<and> distinct (map cycle_key (cycles st)) \<and>
     (\<forall>c \<in> set (cycles st). set c \<subseteq> set (visited st))"

text \<open>The recursion stack holds the names of the path, each once, all visited.\<close>

definition on_stack :: "string list \<Rightarrow> dfs_state \<Rightarrow> bool" where
  "on_stack path st \<longleftrightarrow> set (rec_stack st) = set path \<and> set path \<subseteq> set (visited st) \<and> distinct path"

text \<open>A later state of the search: more visited, the same recursion stack, more cycles.\<close>

definition extends :: "dfs_state \<Rightarrow> dfs_state \<Rightarrow> bool" where
  "extends st st' \<longleftrightarrow> set (visited st) \<subseteq> set (visited st') \<and> set (rec_stack st') = set (rec_stack st) \<and>
     set (cycles st) \<subseteq> set (cycles st')"

text \<open>A cycle found so far with the node set of a back edge still to come from the
  current node is that back edge's cycle.\<close>

definition closes :: "string list \<Rightarrow> (string \<times> DependencySpec) list \<Rightarrow> dfs_state \<Rightarrow> bool" where
  "closes path deps st \<longleftrightarrow>
     (\<forall>c \<in> set (cycles st). \<forall>d \<in> fst ` set deps.
        d \<in> set path \<longrightarrow> set c = set (back_cycle path d) \<longrightarrow> c = back_cycle path d)"

text \<open>After \<open>dfs\<close>: every new cycle has a node that was not visited before the call.\<close>

definition post_dfs :: "dfs_state \<Rightarrow> dfs_state \<Rightarrow> bool" where
  "post_dfs st st' \<longleftrightarrow> cycles_ok st' \<and> extends st st' \<and>
     (\<forall>c \<in> set (cycles st') - set (cycles st). \<not> set c \<subseteq> set (visited st))"

text \<open>After the loop over the dependencies of the last node of \<open>path\<close>: a new cycle has a
  node not visited before, or lies on the path and goes through its last node.\<close>

definition post_deps :: "string list \<Rightarrow> dfs_state \<Rightarrow> dfs_state \<Rightarrow> bool" where
  "post_deps path st st' \<longleftrightarrow> cycles_ok st' \<and> extends st st' \<and>
     (\<forall>c \<in> set (cycles st') - set (cycles st).
        \<not> set c \<subseteq> set (visited st) \<or> (set c \<subseteq> set path \<and> last path \<in> set c))"

section \<open>Properties of \<open>init_from_repos\<close>\<close>

lemma set_set_add [simp]: "set (set_add x xs) = insert x (set xs)"
  by (auto simp: set_add_def)

lemma distinct_set_add [simp]: "distinct (set_add x xs) = distinct xs"
  by (auto simp: set_add_def)

lemma map_has_iff: "map_has m k \<longleftrightarrow> map_of m k \<noteq> None"
  by (simp add: map_has_def map_of_eq_None_iff)

lemma set_update_subset: "set (AList.update k v al) \<subseteq> insert (k, v) (set al)"
  by (induct al) auto

lemma add_repo_keys:
  "map fst (edges g) = map fst (nodes g) \<Longrightarrow>
   map fst (edges (add_repo r g)) = map fst (nodes (add_repo r g))"
  by (simp add: add_repo_def update_keys)

lemma fold_add_repo_keys:
  "map fst (edges g) = map fst (nodes g) \<Longrightarrow>
   map fst (edges (fold add_repo repos g)) = map fst (nodes (fold add_repo repos g))"
  by (induction repos arbitrary: g) (simp_all add: add_repo_keys)

lemma fold_add_repo_distinct:
  "distinct (map fst (nodes g)) \<Longrightarrow> distinct (map fst (nodes (fold add_repo repos g)))"
  by (induction repos arbitrary: g) (simp_all add: add_repo_def distinct_update)

lemma fold_add_repo_nodes:
  "(\<forall>(k, node) \<in> set (nodes g). P k node) \<Longrightarrow>
   (\<forall>r \<in> set repos. P (library_name (library r)) (create_node r)) \<Longrightarrow>
   (\<forall>(k, node) \<in> set (nodes (fold add_repo repos g)). P k node)"
proof (induction repos arbitrary: g)
  case Nil
  then show ?case by simp
next
  case (Cons r repos)
  have "\<forall>(k, node) \<in> set (nodes (add_repo r g)). P k node"
    using Cons.prems set_update_subset [of "library_name (library r)" "create_node r" "nodes g"]
    by (auto simp: add_repo_def)
  then show ?case using Cons.IH [of "add_repo r g"] Cons.prems(2) by simp
qed

lemma fold_add_repo_edges:
  "(\<forall>(k, s) \<in> set (edges g). s = []) \<Longrightarrow>
   (\<forall>(k, s) \<in> set (edges (fold add_repo repos g)). s = [])"
proof (induction repos arbitrary: g)
  case Nil
  then show ?case by simp
next
  case (Cons r repos)
  have "\<forall>(k, s) \<in> set (edges (add_repo r g)). s = []"
    using Cons.prems set_update_subset [of "library_name (library r)" "[]" "edges g"]
    by (auto simp: add_repo_def)
  then show ?case using Cons.IH [of "add_repo r g"] by simp
qed

lemma fold_add_repo_dom:
  "fst ` set (nodes (fold add_repo repos g)) = fst ` set (nodes g) \<union> (\<lambda>r. library_name (library r)) ` set repos"
  by (induction repos arbitrary: g) (auto simp: add_repo_def dom_update)

lemma dependents_self:
  "\<exists>ds. (node :: DependencyNode) = node\<lparr>dependents := ds\<rparr> \<and> set ds = set (dependents node) \<and>
        (distinct (dependents node) \<longrightarrow> distinct ds)"
  by (rule exI [of _ "dependents node"]) simp

lemma grows_refl: "grows g g (\<lambda>k. {})"
  unfolding grows_def using dependents_self by auto

lemma grows_trans:
  assumes "grows g g' A" and "grows g' g'' B"
  shows "grows g g'' (\<lambda>k. A k \<union> B k)"
  unfolding grows_def
proof (intro conjI allI impI)
  show "map fst (nodes g'') = map fst (nodes g)" using assms by (simp add: grows_def)
  show "map fst (edges g'') = map fst (edges g)" using assms by (simp add: grows_def)
next
  fix k s assume "map_of (edges g) k = Some s"
  then obtain s' where s': "map_of (edges g') k = Some s'" "set s' = set s \<union> A k" "distinct s \<longrightarrow> distinct s'"
    using assms(1) unfolding grows_def by blast
  then obtain s'' where "map_of (edges g'') k = Some s''" "set s'' = set s' \<union> B k" "distinct s' \<longrightarrow> distinct s''"
    using assms(2) unfolding grows_def by blast
  with s' show "\<exists>s'. map_of (edges g'') k = Some s' \<and> set s' = set s \<union> (A k \<union> B k) \<and> (distinct s \<longrightarrow> distinct s')"
    by auto
next
  fix k node assume "map_of (nodes g) k = Some node"
  then obtain ds where ds: "map_of (nodes g') k = Some (node\<lparr>dependents := ds\<rparr>)"
      "set ds = set (dependents node) \<union> A k" "distinct (dependents node) \<longrightarrow> distinct ds"
    using assms(1) unfolding grows_def by blast
  then obtain ds' where "map_of (nodes g'') k = Some (node\<lparr>dependents := ds, dependents := ds'\<rparr>)"
      "set ds' = set (dependents (node\<lparr>dependents := ds\<rparr>)) \<union> B k"
      "distinct (dependents (node\<lparr>dependents := ds\<rparr>)) \<longrightarrow> distinct ds'"
    using assms(2) unfolding grows_def by blast
  with ds show "\<exists>ds. map_of (nodes g'') k = Some (node\<lparr>dependents := ds\<rparr>) \<and>
      set ds = set (dependents node) \<union> (A k \<union> B k) \<and> (distinct (dependents node) \<longrightarrow> distinct ds)"
    by auto
qed

lemma add_dependent_grows:
  assumes keys: "map fst (edges g) = map fst (nodes g)"
  shows "\<exists>g'. add_dependent nm dep g = Inr g' \<and> grows g g' (\<lambda>k. if k = dep then {nm} else {})"
proof (cases "map_of (nodes g) dep")
  case None
  then have "map_of (edges g) dep = None"
    using keys by (metis map_of_eq_None_iff set_map)
  with None show ?thesis
    unfolding add_dependent_def grows_def using dependents_self by auto
next
  case (Some dep_node)
  then have "dep \<in> set (map fst (edges g))"
    using keys by (metis map_of_eq_None_iff option.distinct(1) set_map)
  then obtain tos where tos: "map_of (edges g) dep = Some tos"
    by (metis map_of_eq_None_iff not_Some_eq set_map)
  let ?g' = "g\<lparr>nodes := AList.update dep (dep_node\<lparr>dependents := set_add nm (dependents dep_node)\<rparr>) (nodes g),
                edges := AList.update dep (set_add nm tos) (edges g)\<rparr>"
  have 1: "add_dependent nm dep g = Inr ?g'"
    using Some tos by (simp add: add_dependent_def)
  have "dep \<in> set (map fst (nodes g))"
    using Some by (metis map_of_eq_None_iff option.distinct(1) set_map)
  then have 2: "map fst (nodes ?g') = map fst (nodes g)" "map fst (edges ?g') = map fst (edges g)"
    using keys by (simp_all add: update_keys)
  have 3: "\<exists>s'. map_of (edges ?g') k = Some s' \<and> set s' = set s \<union> (if k = dep then {nm} else {}) \<and> (distinct s \<longrightarrow> distinct s')"
    if "map_of (edges g) k = Some s" for k s
    using that tos by (auto simp: update_conv')
  have 4: "\<exists>ds. map_of (nodes ?g') k = Some (node\<lparr>dependents := ds\<rparr>) \<and>
      set ds = set (dependents node) \<union> (if k = dep then {nm} else {}) \<and> (distinct (dependents node) \<longrightarrow> distinct ds)"
    if "map_of (nodes g) k = Some node" for k node
  proof (cases "k = dep")
    case True
    then show ?thesis using that Some
      by (intro exI [of _ "set_add nm (dependents dep_node)"]) (auto simp: update_conv')
  next
    case False
    then show ?thesis using that
      by (intro exI [of _ "dependents node"]) (auto simp: update_conv')
  qed
  show ?thesis
    unfolding grows_def using 1 2 3 4 by blast
qed

lemma grows_keys:
  "grows g g' A \<Longrightarrow> map fst (edges g) = map fst (nodes g) \<Longrightarrow> map fst (edges g') = map fst (nodes g')"
  by (simp add: grows_def)

lemma add_dependents_grows:
  "map fst (edges g) = map fst (nodes g) \<Longrightarrow>
   \<exists>g'. add_dependents nm deps g = Inr g' \<and> grows g g' (\<lambda>k. if k \<in> set deps then {nm} else {})"
proof (induction deps arbitrary: g)
  case Nil
  then show ?case using grows_refl by simp
next
  case (Cons dep deps)
  obtain g1 where g1: "add_dependent nm dep g = Inr g1" "grows g g1 (\<lambda>k. if k = dep then {nm} else {})"
    using add_dependent_grows [OF Cons.prems] by blast
  then have "map fst (edges g1) = map fst (nodes g1)"
    using Cons.prems grows_keys by blast
  then obtain g2 where g2: "add_dependents nm deps g1 = Inr g2" "grows g1 g2 (\<lambda>k. if k \<in> set deps then {nm} else {})"
    using Cons.IH by blast
  have "(\<lambda>k. (if k = dep then {nm} else {}) \<union> (if k \<in> set deps then {nm} else {}))
      = (\<lambda>k. if k \<in> set (dep # deps) then {nm} else {})"
    by (rule ext) auto
  then have "grows g g2 (\<lambda>k. if k \<in> set (dep # deps) then {nm} else {})"
    using grows_trans [OF g1(2) g2(2)] by simp
  then show ?case using g1(1) g2(1) by simp
qed

lemma build_edges_grows:
  "map fst (edges g) = map fst (nodes g) \<Longrightarrow>
   \<exists>g'. build_edges nds g = Inr g' \<and>
        grows g g' (\<lambda>k. {name nd | nd. nd \<in> set nds \<and> k \<in> fst ` set (dependencies nd)})"
proof (induction nds arbitrary: g)
  case Nil
  then show ?case using grows_refl by simp
next
  case (Cons nd nds)
  obtain g1 where g1: "add_dependents (name nd) (map fst (dependencies nd)) g = Inr g1"
      "grows g g1 (\<lambda>k. if k \<in> set (map fst (dependencies nd)) then {name nd} else {})"
    using add_dependents_grows [OF Cons.prems] by blast
  then have "map fst (edges g1) = map fst (nodes g1)"
    using Cons.prems grows_keys by blast
  then obtain g2 where g2: "build_edges nds g1 = Inr g2"
      "grows g1 g2 (\<lambda>k. {name nd | nd. nd \<in> set nds \<and> k \<in> fst ` set (dependencies nd)})"
    using Cons.IH by blast
  have "(\<lambda>k. (if k \<in> set (map fst (dependencies nd)) then {name nd} else {}) \<union>
            {name nd | nd. nd \<in> set nds \<and> k \<in> fst ` set (dependencies nd)})
      = (\<lambda>k. {name n | n. n \<in> set (nd # nds) \<and> k \<in> fst ` set (dependencies n)})"
    by (rule ext) auto
  then have "grows g g2 (\<lambda>k. {name n | n. n \<in> set (nd # nds) \<and> k \<in> fst ` set (dependencies n)})"
    using grows_trans [OF g1(2) g2(2)] by simp
  then show ?case using g1(1) g2(1) by simp
qed

lemma pass1_keys: "map fst (edges (pass1 repos)) = map fst (nodes (pass1 repos))"
  unfolding pass1_def by (rule fold_add_repo_keys) (simp add: new_graph_def)

lemma pass1_distinct: "distinct (map fst (nodes (pass1 repos)))"
  unfolding pass1_def by (rule fold_add_repo_distinct) (simp add: new_graph_def)

lemma pass1_nodes:
  "(k, node) \<in> set (nodes (pass1 repos)) \<Longrightarrow> \<exists>r \<in> set repos. k = library_name (library r) \<and> node = create_node r"
  using fold_add_repo_nodes [of new_graph "\<lambda>k node. \<exists>r \<in> set repos. k = library_name (library r) \<and> node = create_node r" repos]
  unfolding pass1_def by (auto simp: new_graph_def)

lemma pass1_edges: "(k, s) \<in> set (edges (pass1 repos)) \<Longrightarrow> s = []"
  using fold_add_repo_edges [of new_graph repos]
  unfolding pass1_def by (auto simp: new_graph_def)

lemma pass1_dom: "fst ` set (nodes (pass1 repos)) = (\<lambda>r. library_name (library r)) ` set repos"
  unfolding pass1_def by (simp add: fold_add_repo_dom new_graph_def)

lemma fold_add_repo_other:
  "k \<notin> (\<lambda>r. library_name (library r)) ` set repos \<Longrightarrow>
   map_of (nodes (fold add_repo repos g)) k = map_of (nodes g) k"
  by (induction repos arbitrary: g) (auto simp: add_repo_def update_conv')

lemma fold_add_repo_lookup:
  "distinct (map (\<lambda>r. library_name (library r)) repos) \<Longrightarrow> r \<in> set repos \<Longrightarrow>
   map_of (nodes (fold add_repo repos g)) (library_name (library r)) = Some (create_node r)"
proof (induction repos arbitrary: g)
  case Nil
  then show ?case by simp
next
  case (Cons r0 repos)
  show ?case
  proof (cases "r \<in> set repos")
    case True
    then show ?thesis using Cons by simp
  next
    case False
    then have r0: "r = r0" using Cons.prems by simp
    then have "library_name (library r) \<notin> (\<lambda>r. library_name (library r)) ` set repos"
      using Cons.prems(1) by auto
    then have "map_of (nodes (fold add_repo repos (add_repo r0 g))) (library_name (library r))
        = map_of (nodes (add_repo r0 g)) (library_name (library r))"
      by (rule fold_add_repo_other)
    also have "\<dots> = Some (create_node r)"
      using r0 by (simp add: add_repo_def update_conv')
    finally show ?thesis by simp
  qed
qed

lemma build_from_repos_grows:
  "\<exists>g. build_from_repos repos = Inr g \<and>
       grows (pass1 repos) g
         (\<lambda>k. {name nd | nd. nd \<in> snd ` set (nodes (pass1 repos)) \<and> k \<in> fst ` set (dependencies nd)})"
  using build_edges_grows [OF pass1_keys, of "map snd (nodes (pass1 repos))" repos]
  by (simp add: build_from_repos_def init_from_repos_def pass1_def Let_def)

lemma pass1_dependents_of:
  "{name nd | nd. nd \<in> snd ` set (nodes (pass1 repos)) \<and> k \<in> fst ` set (dependencies nd)}
     = dependents_of (pass1 repos) k"
proof (rule set_eqI, rule iffI)
  fix x
  assume "x \<in> {name nd | nd. nd \<in> snd ` set (nodes (pass1 repos)) \<and> k \<in> fst ` set (dependencies nd)}"
  then obtain nd where nd0: "x = name nd" "nd \<in> snd ` set (nodes (pass1 repos))"
      "k \<in> fst ` set (dependencies nd)"
    by blast
  from nd0(2) obtain m where "(m, nd) \<in> set (nodes (pass1 repos))" by force
  note nd = nd0(1) this nd0(3)
  have "name nd = m" using pass1_nodes [OF nd(2)] by (auto simp: create_node_def Let_def)
  moreover have "map_of (nodes (pass1 repos)) m = Some nd"
    using nd(2) pass1_distinct [of repos] by simp
  ultimately show "x \<in> dependents_of (pass1 repos) k"
    unfolding dependents_of_def using nd(1,3) by blast
next
  fix x
  assume "x \<in> dependents_of (pass1 repos) k"
  then obtain nd where nd: "map_of (nodes (pass1 repos)) x = Some nd" "k \<in> fst ` set (dependencies nd)"
    unfolding dependents_of_def by blast
  then have mem: "(x, nd) \<in> set (nodes (pass1 repos))" by (simp add: map_of_SomeD)
  then have "name nd = x" using pass1_nodes [OF mem] by (auto simp: create_node_def Let_def)
  moreover have "nd \<in> snd ` set (nodes (pass1 repos))" using mem by force
  ultimately show "x \<in> {name nd | nd. nd \<in> snd ` set (nodes (pass1 repos)) \<and> k \<in> fst ` set (dependencies nd)}"
    using nd(2) by blast
qed

lemma key_lookup: "k \<in> set (map fst al) \<Longrightarrow> \<exists>v. map_of al k = Some v"
  by (induction al) auto

lemma grows_dependents_of:
  assumes "grows g g' A"
  shows "dependents_of g' k = dependents_of g k"
proof (rule set_eqI, rule iffI)
  fix m
  assume "m \<in> dependents_of g' k"
  then obtain node' where n': "map_of (nodes g') m = Some node'" "k \<in> fst ` set (dependencies node')"
    unfolding dependents_of_def by blast
  then have "m \<in> set (map fst (nodes g'))" by (metis map_of_eq_None_iff option.distinct(1) set_map)
  moreover have "map fst (nodes g') = map fst (nodes g)" using assms by (simp add: grows_def)
  ultimately have "m \<in> set (map fst (nodes g))" by metis
  then obtain node where n: "map_of (nodes g) m = Some node" using key_lookup by fast
  then obtain ds where "map_of (nodes g') m = Some (node\<lparr>dependents := ds\<rparr>)"
    using assms unfolding grows_def by blast
  then have "dependencies node' = dependencies node" using n'(1) by simp
  then show "m \<in> dependents_of g k"
    unfolding dependents_of_def using n n'(2) by auto
next
  fix m
  assume "m \<in> dependents_of g k"
  then obtain node where n: "map_of (nodes g) m = Some node" "k \<in> fst ` set (dependencies node)"
    unfolding dependents_of_def by blast
  then obtain ds where "map_of (nodes g') m = Some (node\<lparr>dependents := ds\<rparr>)"
    using assms unfolding grows_def by blast
  then show "m \<in> dependents_of g' k"
    unfolding dependents_of_def using n(2) by auto
qed

lemma build_from_repos_built:
  "\<exists>g. build_from_repos repos = Inr g \<and> grows (pass1 repos) g (dependents_of (pass1 repos))"
  using build_from_repos_grows [of repos] by (simp add: pass1_dependents_of)

lemma built_node:
  assumes g: "build_from_repos repos = Inr g" and "(k, node) \<in> set (nodes g)"
  shows "\<exists>r \<in> set repos. k = library_name (library r) \<and>
            node = (create_node r)\<lparr>dependents := dependents node\<rparr> \<and>
            set (dependents node) = dependents_of g k \<and> distinct (dependents node)"
proof -
  let ?g1 = "pass1 repos"
  have gr: "grows ?g1 g (dependents_of ?g1)"
    using build_from_repos_built [of repos] g by simp
  have kn: "map fst (nodes g) = map fst (nodes ?g1)"
    using gr by (simp add: grows_def)
  have dn: "distinct (map fst (nodes g))" using kn pass1_distinct by simp
  have "k \<in> set (map fst (nodes g))" using assms(2) by force
  then obtain n1 where n1: "map_of (nodes ?g1) k = Some n1"
    using key_lookup kn by metis
  then have in1: "(k, n1) \<in> set (nodes ?g1)" by (rule map_of_SomeD)
  obtain r where r: "r \<in> set repos" "k = library_name (library r)" "n1 = create_node r"
    using pass1_nodes [OF in1] by blast
  have n1d: "dependents n1 = []" using r(3) by (simp add: create_node_def Let_def)
  obtain ds where ds: "map_of (nodes g) k = Some (n1\<lparr>dependents := ds\<rparr>)"
      "set ds = set (dependents n1) \<union> dependents_of ?g1 k" "distinct (dependents n1) \<longrightarrow> distinct ds"
    using gr n1 unfolding grows_def by blast
  have "map_of (nodes g) k = Some node" using assms(2) dn by simp
  then have eq: "node = n1\<lparr>dependents := ds\<rparr>" using ds(1) by simp
  then have "dependents node = ds" by simp
  then have 1: "node = (create_node r)\<lparr>dependents := dependents node\<rparr>" using eq r(3) by simp
  have 2: "set (dependents node) = dependents_of g k"
    using ds(2) n1d \<open>dependents node = ds\<close> grows_dependents_of [OF gr, of k] by simp
  have 3: "distinct (dependents node)" using ds(3) n1d \<open>dependents node = ds\<close> by simp
  show ?thesis using r(1,2) 1 2 3 by blast
qed

lemma built_edge:
  assumes g: "build_from_repos repos = Inr g" and "(k, s) \<in> set (edges g)"
  shows "set s = dependents_of g k \<and> distinct s"
proof -
  let ?g1 = "pass1 repos"
  have gr: "grows ?g1 g (dependents_of ?g1)"
    using build_from_repos_built [of repos] g by simp
  have ke: "map fst (edges g) = map fst (edges ?g1)"
    using gr by (simp add: grows_def)
  have de: "distinct (map fst (edges g))" using ke pass1_keys pass1_distinct by simp
  have "k \<in> set (map fst (edges g))" using assms(2) by force
  then obtain s1 where s1: "map_of (edges ?g1) k = Some s1"
    using key_lookup ke by metis
  then have "(k, s1) \<in> set (edges ?g1)" by (rule map_of_SomeD)
  then have s1e: "s1 = []" by (rule pass1_edges)
  obtain s' where s': "map_of (edges g) k = Some s'" "set s' = set s1 \<union> dependents_of ?g1 k"
      "distinct s1 \<longrightarrow> distinct s'"
    using gr s1 unfolding grows_def by blast
  have "map_of (edges g) k = Some s" using assms(2) de by simp
  then have "s = s'" using s'(1) by simp
  then show ?thesis using s'(2,3) s1e grows_dependents_of [OF gr, of k] by simp
qed

lemma built_keys:
  assumes g: "build_from_repos repos = Inr g"
  shows "map fst (edges g) = map fst (nodes g)"
    and "distinct (map fst (nodes g))"
    and "fst ` set (nodes g) = (\<lambda>r. library_name (library r)) ` set repos"
proof -
  let ?g1 = "pass1 repos"
  have gr: "grows ?g1 g (dependents_of ?g1)"
    using build_from_repos_built [of repos] g by simp
  have kn: "map fst (nodes g) = map fst (nodes ?g1)" and ke: "map fst (edges g) = map fst (edges ?g1)"
    using gr by (simp_all add: grows_def)
  show "map fst (edges g) = map fst (nodes g)" using kn ke pass1_keys by simp
  show "distinct (map fst (nodes g))" using kn pass1_distinct by simp
  have "set (map fst (nodes g)) = set (map fst (nodes ?g1))" using kn by simp
  then show "fst ` set (nodes g) = (\<lambda>r. library_name (library r)) ` set repos"
    using pass1_dom [of repos] by simp
qed

lemma built_wf:
  assumes g: "build_from_repos repos = Inr g"
  shows "wf_graph g"
proof -
  have "name node = k" if h: "(k, node) \<in> set (nodes g)" for k node
  proof -
    obtain r where r: "k = library_name (library r)" "node = (create_node r)\<lparr>dependents := dependents node\<rparr>"
      using built_node [OF g h] by blast
    have "name ((create_node r)\<lparr>dependents := dependents node\<rparr>) = k"
      using r(1) by (simp add: create_node_def Let_def)
    then show ?thesis using r(2) by simp
  qed
  then show ?thesis
    unfolding wf_graph_def list_all_iff using built_keys(2) [OF g] by auto
qed

lemma built_lookup:
  assumes g: "build_from_repos repos = Inr g"
    and "distinct (map (\<lambda>r. library_name (library r)) repos)" "r \<in> set repos"
  shows "\<exists>ds. map_of (nodes g) (library_name (library r)) = Some ((create_node r)\<lparr>dependents := ds\<rparr>)"
proof -
  let ?g1 = "pass1 repos"
  have gr: "grows ?g1 g (dependents_of ?g1)"
    using build_from_repos_built [of repos] g by simp
  have "map_of (nodes ?g1) (library_name (library r)) = Some (create_node r)"
    unfolding pass1_def using fold_add_repo_lookup [OF assms(2,3)] .
  then show ?thesis using gr unfolding grows_def by blast
qed

lemma fold_set_lookup:
  "map_of (fold (\<lambda>(n, v) m. AList.update n (f v) m) xs m) k =
     (case map_of (rev xs) k of None \<Rightarrow> map_of m k | Some v \<Rightarrow> Some (f v))"
proof (induction xs arbitrary: m)
  case Nil
  then show ?case by simp
next
  case (Cons x xs)
  obtain n v where x: "x = (n, v)" by (cases x)
  show ?case
    by (simp add: x Cons.IH update_conv' map_add_def split: option.splits)
qed

lemma fold_set_distinct:
  "distinct (map fst m) \<Longrightarrow> distinct (map fst (fold (\<lambda>(n, v) m. AList.update n (f v) m) xs m))"
  by (induction xs arbitrary: m) (auto simp: distinct_update split: prod.splits)

lemma fold_dev_lookup:
  "map_of (fold (\<lambda>(n, v) m. if map_has m n then m else AList.update n (f v) m) xs m) k =
     (case map_of m k of Some s \<Rightarrow> Some s | None \<Rightarrow> map_option f (map_of xs k))"
proof (induction xs arbitrary: m)
  case Nil
  then show ?case by (simp split: option.splits)
next
  case (Cons x xs)
  obtain n v where x: "x = (n, v)" by (cases x)
  let ?G = "\<lambda>(n, v) m. if map_has m n then m else AList.update n (f v) m"
  show ?case
  proof (cases "map_has m n")
    case True
    then obtain y where "map_of m n = Some y" by (auto simp: map_has_iff)
    moreover have "fold ?G (x # xs) m = fold ?G xs m" using True by (simp add: x)
    ultimately show ?thesis
      by (simp only: Cons.IH) (simp add: x split: option.splits)
  next
    case False
    then have "map_of m n = None" by (simp add: map_has_iff)
    moreover have "fold ?G (x # xs) m = fold ?G xs (AList.update n (f v) m)" using False by (simp add: x)
    ultimately show ?thesis
      by (simp only: Cons.IH) (auto simp: x update_conv' split: option.splits)
  qed
qed

lemma fold_dev_distinct:
  "distinct (map fst m) \<Longrightarrow>
   distinct (map fst (fold (\<lambda>(n, v) m. if map_has m n then m else AList.update n (f v) m) xs m))"
  by (induction xs arbitrary: m) (auto simp: distinct_update split: prod.splits)

lemma map_of_rev_None: "map_of (rev xs) k = None \<longleftrightarrow> k \<notin> fst ` set xs"
  by (simp add: map_of_eq_None_iff)

lemma map_of_rev_Some: "map_of (rev xs) k = Some v \<Longrightarrow> (k, v) \<in> set xs"
  using map_of_SomeD by fastforce

lemma merge_sections_distinct: "distinct (map fst (merge_sections deps peer_deps dev_deps))"
  unfolding merge_sections_def Let_def
  by (intro fold_dev_distinct fold_set_distinct) simp

lemma merge_sections_lookup:
  "map_of (merge_sections deps peer_deps dev_deps) k =
     (case map_of (rev peer_deps) k of
        Some v \<Rightarrow> Some (mk_spec Peer v)
      | None \<Rightarrow> (case map_of (rev deps) k of
                   Some v \<Rightarrow> Some (mk_spec Prod v)
                 | None \<Rightarrow> map_option (mk_spec Dev) (map_of dev_deps k)))"
  unfolding merge_sections_def Let_def
  by (simp add: fold_dev_lookup fold_set_lookup split: option.splits)

lemma merge_sections_peer:
  assumes "k \<in> fst ` set peer_deps"
  shows "\<exists>v. (k, v) \<in> set peer_deps \<and> map_of (merge_sections deps peer_deps dev_deps) k = Some (mk_spec Peer v)"
proof -
  obtain v where "map_of (rev peer_deps) k = Some v"
    using assms map_of_rev_None [of peer_deps k] by auto
  then show ?thesis
    using map_of_rev_Some by (fastforce simp: merge_sections_lookup)
qed

lemma merge_sections_prod:
  assumes "k \<notin> fst ` set peer_deps" "k \<in> fst ` set deps"
  shows "\<exists>v. (k, v) \<in> set deps \<and> map_of (merge_sections deps peer_deps dev_deps) k = Some (mk_spec Prod v)"
proof -
  have "map_of (rev peer_deps) k = None" using assms(1) by (simp add: map_of_rev_None)
  moreover obtain v where "map_of (rev deps) k = Some v"
    using assms(2) map_of_rev_None [of deps k] by auto
  ultimately show ?thesis
    using map_of_rev_Some by (fastforce simp: merge_sections_lookup)
qed

lemma merge_sections_dev:
  assumes "k \<notin> fst ` set peer_deps" "k \<notin> fst ` set deps" "k \<in> fst ` set dev_deps"
  shows "\<exists>v. (k, v) \<in> set dev_deps \<and> map_of (merge_sections deps peer_deps dev_deps) k = Some (mk_spec Dev v)"
proof -
  have "map_of (rev peer_deps) k = None" "map_of (rev deps) k = None"
    using assms(1,2) by (simp_all add: map_of_rev_None)
  moreover obtain v where "map_of dev_deps k = Some v"
    using assms(3) by (metis map_of_eq_None_iff not_Some_eq)
  ultimately show ?thesis
    using map_of_SomeD by (fastforce simp: merge_sections_lookup)
qed

lemma merge_sections_none:
  assumes "k \<notin> fst ` set peer_deps" "k \<notin> fst ` set deps" "k \<notin> fst ` set dev_deps"
  shows "map_of (merge_sections deps peer_deps dev_deps) k = None"
proof -
  have "map_of (rev peer_deps) k = None" "map_of (rev deps) k = None" "map_of dev_deps k = None"
    using assms by (simp_all add: map_of_eq_None_iff)
  then show ?thesis by (simp add: merge_sections_lookup)
qed

lemma built_dependencies:
  assumes g: "build_from_repos repos = Inr g"
    and "distinct (map (\<lambda>r. library_name (library r)) repos)" "r \<in> set repos"
  shows "get_dependencies g (library_name (library r)) = merge_sections (prod_section r) (peer_section r) (dev_section r)"
proof -
  obtain ds where "map_of (nodes g) (library_name (library r)) = Some ((create_node r)\<lparr>dependents := ds\<rparr>)"
    using built_lookup [OF assms] by blast
  then show ?thesis
    by (simp add: get_dependencies_def create_node_def Let_def prod_section_def peer_section_def dev_section_def)
qed

lemma dependents_of_alt:
  "dependents_of g n = {m. map_has (nodes g) m \<and> map_has (get_dependencies g m) n}"
proof (rule set_eqI, rule iffI)
  fix m assume "m \<in> dependents_of g n"
  then obtain node where "map_of (nodes g) m = Some node" "n \<in> fst ` set (dependencies node)"
    unfolding dependents_of_def by blast
  then show "m \<in> {m. map_has (nodes g) m \<and> map_has (get_dependencies g m) n}"
    by (simp add: map_has_def get_dependencies_def) (metis map_of_eq_None_iff option.distinct(1))
next
  fix m assume "m \<in> {m. map_has (nodes g) m \<and> map_has (get_dependencies g m) n}"
  then have a: "map_has (nodes g) m" and b: "map_has (get_dependencies g m) n" by simp_all
  from a obtain node where node: "map_of (nodes g) m = Some node" by (auto simp: map_has_iff)
  then have "n \<in> fst ` set (dependencies node)"
    using b by (simp add: get_dependencies_def map_has_def)
  then show "m \<in> dependents_of g n"
    unfolding dependents_of_def using node by blast
qed

section \<open>Claims about construction and queries\<close>

text \<open>Claim C10. If a repo's manifest has no version (missing, or the empty string),
  \<open>init_from_repos\<close> still creates the node and records its version as the literal
  \<open>0.0.0\<close>; construction never fails, whatever the versions are. Repo names are unique
  where a node is traced back to its repo (a later repo of the same name overwrites the node).\<close>

theorem missing_version_default:
  "\<exists>g. build_from_repos repos = Inr g \<and>
       (\<forall>r \<in> set repos. map_has (nodes g) (repo_name r)) \<and>
       (distinct (map repo_name repos) \<longrightarrow>
          (\<forall>r \<in> set repos.
             pkg_version (package_json (library r)) = None \<or>
             pkg_version (package_json (library r)) = Some '''' \<longrightarrow>
             (\<exists>node. get_node g (repo_name r) = Some node \<and> version node = ''0.0.0'')))"
proof -
  obtain g where g: "build_from_repos repos = Inr g"
    using build_from_repos_built by blast
  have 1: "map_has (nodes g) (repo_name r)" if "r \<in> set repos" for r
    using built_keys(3) [OF g] that by (auto simp: map_has_def repo_name_def)
  have 2: "\<exists>node. get_node g (repo_name r) = Some node \<and> version node = ''0.0.0''"
    if d: "distinct (map repo_name repos)" and r: "r \<in> set repos"
      and v: "pkg_version (package_json (library r)) = None \<or> pkg_version (package_json (library r)) = Some ''''"
    for r
  proof -
    have "distinct (map (\<lambda>r. library_name (library r)) repos)"
      using d by (simp add: repo_name_def [abs_def])
    then obtain ds where "map_of (nodes g) (library_name (library r)) = Some ((create_node r)\<lparr>dependents := ds\<rparr>)"
      using built_lookup [OF g _ r] by blast
    moreover have "version ((create_node r)\<lparr>dependents := ds\<rparr>) = ''0.0.0''"
      using v by (auto simp: create_node_def Let_def)
    ultimately show ?thesis by (simp add: get_node_def repo_name_def)
  qed
  show ?thesis using g 1 2 by blast
qed

theorem missing_version_default_witness:
  "\<exists>g. build_from_repos [mk_repo ''a'' None [] [] [], mk_repo ''b'' (Some '''') [] [] []] = Inr g \<and>
       map_option version (get_node g ''a'') = Some ''0.0.0'' \<and>
       map_option version (get_node g ''b'') = Some ''0.0.0''"
  using missing_version_default [of "[mk_repo ''a'' None [] [] [], mk_repo ''b'' (Some '''') [] [] []]"]
  by (auto simp: mk_repo_def repo_name_def)

text \<open>Claim C8. For a name that is not a node of the graph, \<open>get_dependents\<close> returns the
  empty set, \<open>get_dependencies\<close> the empty mapping and \<open>get_node\<close> no node; the three
  queries return plain values and have no failing branch.\<close>

theorem unknown_name_queries:
  assumes "build_from_repos repos = Inr g" and "\<not> map_has (nodes g) n"
  shows "get_dependents g n = [] \<and> get_dependencies g n = [] \<and> get_node g n = None"
proof -
  have "map_of (nodes g) n = None" using assms(2) by (simp add: map_has_iff)
  moreover have "\<not> map_has (edges g) n"
    using assms(2) built_keys(1) [OF assms(1)] by (simp add: map_has_def)
  then have "map_of (edges g) n = None" by (simp add: map_has_iff)
  ultimately show ?thesis
    by (simp add: get_dependents_def get_dependencies_def get_node_def)
qed

theorem unknown_name_queries_witness:
  "build_from_repos [mk_repo ''a'' None [] [(''ext'', ''^1.0.0'')] []] =
     Inr \<lparr>nodes = [(''a'', \<lparr>name = ''a'', version = ''0.0.0'',
                           repo = Some (mk_repo ''a'' None [] [(''ext'', ''^1.0.0'')] []),
                           dependencies = [(''ext'', mk_spec Peer ''^1.0.0'')],
                           dependents = [], publishable = True\<rparr>)],
          edges = [(''a'', [])]\<rparr> \<and>
   \<not> map_has [(''a'', \<lparr>name = ''a'', version = ''0.0.0'',
                           repo = Some (mk_repo ''a'' None [] [(''ext'', ''^1.0.0'')] []),
                           dependencies = [(''ext'', mk_spec Peer ''^1.0.0'')],
                           dependents = [], publishable = True\<rparr>)] ''ext'' \<and>
   get_dependents \<lparr>nodes = [(''a'', \<lparr>name = ''a'', version = ''0.0.0'',
                           repo = Some (mk_repo ''a'' None [] [(''ext'', ''^1.0.0'')] []),
                           dependencies = [(''ext'', mk_spec Peer ''^1.0.0'')],
                           dependents = [], publishable = True\<rparr>)],
          edges = [(''a'', [])]\<rparr> ''ext'' = []"
proof -
  let ?g = "\<lparr>nodes = [(''a'', \<lparr>name = ''a'', version = ''0.0.0'',
                           repo = Some (mk_repo ''a'' None [] [(''ext'', ''^1.0.0'')] []),
                           dependencies = [(''ext'', mk_spec Peer ''^1.0.0'')],
                           dependents = [], publishable = True\<rparr>)],
          edges = [(''a'', [])]\<rparr>"
  have b: "build_from_repos [mk_repo ''a'' None [] [(''ext'', ''^1.0.0'')] []] = Inr ?g"
    by code_simp
  have h: "\<not> map_has (nodes ?g) ''ext''" by (simp add: map_has_def)
  show ?thesis using b h unknown_name_queries [OF b h] by simp
qed

text \<open>Claim C5. After \<open>init_from_repos\<close>, \<open>edges[n]\<close> of a node name \<open>n\<close> is exactly the set
  of graph nodes whose dependency mapping has the key \<open>n\<close> (and so is the node's own
  \<open>dependents\<close>); a name that is no node has no entry in \<open>edges\<close>, it stays in the
  dependency mapping that names it, and \<open>get_dependents\<close> of it is empty.\<close>

theorem edges_are_dependents:
  assumes "build_from_repos repos = Inr g"
  shows "(\<forall>n. map_has (nodes g) n \<longrightarrow>
            (\<exists>s node. map_of (edges g) n = Some s \<and> distinct s \<and>
               set s = {m. map_has (nodes g) m \<and> map_has (get_dependencies g m) n} \<and>
               get_node g n = Some node \<and> set (dependents node) = set s)) \<and>
         (\<forall>n. \<not> map_has (nodes g) n \<longrightarrow> \<not> map_has (edges g) n \<and> get_dependents g n = []) \<and>
         (distinct (map repo_name repos) \<longrightarrow>
            (\<forall>r \<in> set repos. get_dependencies g (repo_name r) =
                 merge_sections (prod_section r) (peer_section r) (dev_section r)))"
proof (intro conjI allI impI ballI)
  fix n assume n: "map_has (nodes g) n"
  have dn: "distinct (map fst (nodes g))" by (rule built_keys(2) [OF assms])
  have de: "distinct (map fst (edges g))" using dn built_keys(1) [OF assms] by simp
  obtain node where node: "map_of (nodes g) n = Some node" using n by (auto simp: map_has_iff)
  then have mem: "(n, node) \<in> set (nodes g)" by (rule map_of_SomeD)
  have "map_has (edges g) n" using n built_keys(1) [OF assms] by (simp add: map_has_def)
  then obtain s where s: "map_of (edges g) n = Some s" by (auto simp: map_has_iff)
  then have "(n, s) \<in> set (edges g)" by (rule map_of_SomeD)
  then have 1: "set s = dependents_of g n" "distinct s" using built_edge [OF assms] by blast+
  have 2: "set (dependents node) = dependents_of g n" using built_node [OF assms mem] by blast
  show "\<exists>s node. map_of (edges g) n = Some s \<and> distinct s \<and>
               set s = {m. map_has (nodes g) m \<and> map_has (get_dependencies g m) n} \<and>
               get_node g n = Some node \<and> set (dependents node) = set s"
    using s node 1 2 by (simp add: dependents_of_alt get_node_def)
next
  fix n assume n: "\<not> map_has (nodes g) n"
  then show e: "\<not> map_has (edges g) n" using built_keys(1) [OF assms] by (simp add: map_has_def)
  then have "map_of (edges g) n = None" by (simp add: map_has_iff)
  then show "get_dependents g n = []" by (simp add: get_dependents_def)
next
  fix r assume "distinct (map repo_name repos)" "r \<in> set repos"
  then show "get_dependencies g (repo_name r) = merge_sections (prod_section r) (peer_section r) (dev_section r)"
    using built_dependencies [OF assms, of r] by (simp add: repo_name_def [abs_def])
qed

theorem edges_are_dependents_witness:
  "build_from_repos [mk_repo ''a'' None [(''b'', ''^1.0.0'')] [(''ext'', ''^2.0.0'')] [],
                     mk_repo ''b'' None [] [] []] =
     Inr \<lparr>nodes = [(''a'', \<lparr>name = ''a'', version = ''0.0.0'',
                           repo = Some (mk_repo ''a'' None [(''b'', ''^1.0.0'')] [(''ext'', ''^2.0.0'')] []),
                           dependencies = [(''b'', mk_spec Prod ''^1.0.0''), (''ext'', mk_spec Peer ''^2.0.0'')],
                           dependents = [], publishable = True\<rparr>),
                   (''b'', \<lparr>name = ''b'', version = ''0.0.0'',
                           repo = Some (mk_repo ''b'' None [] [] []),
                           dependencies = [], dependents = [''a''], publishable = True\<rparr>)],
          edges = [(''a'', []), (''b'', [''a''])]\<rparr> \<and>
   get_dependents \<lparr>nodes = [(''a'', \<lparr>name = ''a'', version = ''0.0.0'',
                           repo = Some (mk_repo ''a'' None [(''b'', ''^1.0.0'')] [(''ext'', ''^2.0.0'')] []),
                           dependencies = [(''b'', mk_spec Prod ''^1.0.0''), (''ext'', mk_spec Peer ''^2.0.0'')],
                           dependents = [], publishable = True\<rparr>),
                   (''b'', \<lparr>name = ''b'', version = ''0.0.0'',
                           repo = Some (mk_repo ''b'' None [] [] []),
                           dependencies = [], dependents = [''a''], publishable = True\<rparr>)],
          edges = [(''a'', []), (''b'', [''a''])]\<rparr> ''ext'' = []"
proof -
  let ?g = "\<lparr>nodes = [(''a'', \<lparr>name = ''a'', version = ''0.0.0'',
                           repo = Some (mk_repo ''a'' None [(''b'', ''^1.0.0'')] [(''ext'', ''^2.0.0'')] []),
                           dependencies = [(''b'', mk_spec Prod ''^1.0.0''), (''ext'', mk_spec Peer ''^2.0.0'')],
                           dependents = [], publishable = True\<rparr>),
                   (''b'', \<lparr>name = ''b'', version = ''0.0.0'',
                           repo = Some (mk_repo ''b'' None [] [] []),
                           dependencies = [], dependents = [''a''], publishable = True\<rparr>)],
          edges = [(''a'', []), (''b'', [''a''])]\<rparr>"
  have b: "build_from_repos [mk_repo ''a'' None [(''b'', ''^1.0.0'')] [(''ext'', ''^2.0.0'')] [],
                     mk_repo ''b'' None [] [] []] = Inr ?g"
    by code_simp
  have h: "\<not> map_has (nodes ?g) ''ext''" by (simp add: map_has_def)
  note t = edges_are_dependents [OF b, THEN conjunct2, THEN conjunct1, rule_format, OF h]
  show ?thesis using b t by simp
qed

text \<open>Claim C2, as stated, fails: a name listed under both \<open>dependencies\<close> and
  \<open>peerDependencies\<close> ends with type peer and the peer range, not with type prod.\<close>

theorem merge_prod_peer_counterexample:
  "build_from_repos [mk_repo ''x'' (Some ''1.0.0'') [(''y'', ''^1.0.0'')] [(''y'', ''^2.0.0'')] []] =
     Inr \<lparr>nodes = [(''x'', \<lparr>name = ''x'', version = ''1.0.0'',
                           repo = Some (mk_repo ''x'' (Some ''1.0.0'') [(''y'', ''^1.0.0'')] [(''y'', ''^2.0.0'')] []),
                           dependencies = [(''y'', \<lparr>spec_type = Peer, spec_version = ''^2.0.0'',
                                                    spec_resolved = None\<rparr>)],
                           dependents = [], publishable = True\<rparr>)],
          edges = [(''x'', [])]\<rparr>"
  by code_simp

text \<open>Claim C2, amended. The merged dependency mapping of a repo's node has one entry for
  each name of the three sections, and the sections are ranked dev < prod < peer: a name of
  \<open>peerDependencies\<close> is recorded with type peer and a peer range, a name of
  \<open>dependencies\<close> that is no peer name with type prod and a production range, a name of
  \<open>devDependencies\<close> alone with type dev and a dev range.\<close>

theorem merge_priority:
  assumes "distinct (map repo_name repos)" and "r \<in> set repos"
  shows "\<exists>g. build_from_repos repos = Inr g \<and>
           distinct (map fst (get_dependencies g (repo_name r))) \<and>
           (\<forall>k. (k \<in> fst ` set (peer_section r) \<longrightarrow>
                   (\<exists>v. (k, v) \<in> set (peer_section r) \<and>
                        map_of (get_dependencies g (repo_name r)) k =
                          Some \<lparr>spec_type = Peer, spec_version = v, spec_resolved = None\<rparr>)) \<and>
                (k \<notin> fst ` set (peer_section r) \<and> k \<in> fst ` set (prod_section r) \<longrightarrow>
                   (\<exists>v. (k, v) \<in> set (prod_section r) \<and>
                        map_of (get_dependencies g (repo_name r)) k =
                          Some \<lparr>spec_type = Prod, spec_version = v, spec_resolved = None\<rparr>)) \<and>
                (k \<notin> fst ` set (peer_section r) \<and> k \<notin> fst ` set (prod_section r) \<and>
                 k \<in> fst ` set (dev_section r) \<longrightarrow>
                   (\<exists>v. (k, v) \<in> set (dev_section r) \<and>
                        map_of (get_dependencies g (repo_name r)) k =
                          Some \<lparr>spec_type = Dev, spec_version = v, spec_resolved = None\<rparr>)) \<and>
                (k \<notin> fst ` set (peer_section r) \<and> k \<notin> fst ` set (prod_section r) \<and>
                 k \<notin> fst ` set (dev_section r) \<longrightarrow>
                   map_of (get_dependencies g (repo_name r)) k = None))"
proof -
  obtain g where g: "build_from_repos repos = Inr g"
    using build_from_repos_built by blast
  have d: "distinct (map (\<lambda>r. library_name (library r)) repos)"
    using assms(1) by (simp add: repo_name_def [abs_def])
  have eq: "get_dependencies g (repo_name r) = merge_sections (prod_section r) (peer_section r) (dev_section r)"
    using built_dependencies [OF g d assms(2)] by (simp add: repo_name_def)
  let ?m = "get_dependencies g (repo_name r)"
  have 1: "distinct (map fst ?m)" by (simp add: eq merge_sections_distinct)
  have 2: "\<exists>v. (k, v) \<in> set (peer_section r) \<and>
               map_of ?m k = Some \<lparr>spec_type = Peer, spec_version = v, spec_resolved = None\<rparr>"
    if "k \<in> fst ` set (peer_section r)" for k
    using merge_sections_peer [OF that, of "prod_section r" "dev_section r"]
    by (simp add: eq mk_spec_def)
  have 3: "\<exists>v. (k, v) \<in> set (prod_section r) \<and>
               map_of ?m k = Some \<lparr>spec_type = Prod, spec_version = v, spec_resolved = None\<rparr>"
    if "k \<notin> fst ` set (peer_section r) \<and> k \<in> fst ` set (prod_section r)" for k
    using merge_sections_prod [of k "peer_section r" "prod_section r" "dev_section r"] that
    by (simp add: eq mk_spec_def)
  have 4: "\<exists>v. (k, v) \<in> set (dev_section r) \<and>
               map_of ?m k = Some \<lparr>spec_type = Dev, spec_version = v, spec_resolved = None\<rparr>"
    if "k \<notin> fst ` set (peer_section r) \<and> k \<notin> fst ` set (prod_section r) \<and>
        k \<in> fst ` set (dev_section r)" for k
    using merge_sections_dev [of k "peer_section r" "prod_section r" "dev_section r"] that
    by (simp add: eq mk_spec_def)
  have 5: "map_of ?m k = None"
    if "k \<notin> fst ` set (peer_section r) \<and> k \<notin> fst ` set (prod_section r) \<and>
        k \<notin> fst ` set (dev_section r)" for k
    using merge_sections_none [of k "peer_section r" "prod_section r" "dev_section r"] that
    by (simp add: eq)
  show ?thesis
  proof (intro exI [of _ g] conjI allI impI)
    show "build_from_repos repos = Inr g" by (rule g)
    show "distinct (map fst ?m)" by (rule 1)
  qed (rule 2 3 4 5, assumption)+
qed

theorem merge_priority_witness:
  "\<exists>g. build_from_repos [mk_repo ''x'' None [(''y'', ''1''), (''z'', ''2'')] [(''y'', ''3'')]
                             [(''y'', ''4''), (''z'', ''5''), (''w'', ''6'')]] = Inr g \<and>
       map_of (get_dependencies g ''x'') ''y'' = Some (mk_spec Peer ''3'') \<and>
       map_of (get_dependencies g ''x'') ''z'' = Some (mk_spec Prod ''2'') \<and>
       map_of (get_dependencies g ''x'') ''w'' = Some (mk_spec Dev ''6'')"
proof -
  let ?r = "mk_repo ''x'' None [(''y'', ''1''), (''z'', ''2'')] [(''y'', ''3'')]
                             [(''y'', ''4''), (''z'', ''5''), (''w'', ''6'')]"
  have s: "peer_section ?r = [(''y'', ''3'')]" "prod_section ?r = [(''y'', ''1''), (''z'', ''2'')]"
     "dev_section ?r = [(''y'', ''4''), (''z'', ''5''), (''w'', ''6'')]" "repo_name ?r = ''x''"
    by (simp_all add: peer_section_def prod_section_def dev_section_def mk_repo_def or_empty_def repo_name_def)
  have h: "distinct (map repo_name [?r])" "?r \<in> set [?r]" by simp_all
  note t = merge_priority [OF h]
  have c: "\<exists>g. build_from_repos [?r] = Inr g \<and>
       map_of (get_dependencies g ''x'') ''y'' = Some (mk_spec Peer ''3'') \<and>
       map_of (get_dependencies g ''x'') ''z'' = Some (mk_spec Prod ''2'') \<and>
       map_of (get_dependencies g ''x'') ''w'' = Some (mk_spec Dev ''6'')"
  proof -
    from t obtain g where g: "build_from_repos [?r] = Inr g"
      and p: "\<forall>k. (k \<in> fst ` set (peer_section ?r) \<longrightarrow>
                   (\<exists>v. (k, v) \<in> set (peer_section ?r) \<and>
                        map_of (get_dependencies g (repo_name ?r)) k =
                          Some \<lparr>spec_type = Peer, spec_version = v, spec_resolved = None\<rparr>)) \<and>
                (k \<notin> fst ` set (peer_section ?r) \<and> k \<in> fst ` set (prod_section ?r) \<longrightarrow>
                   (\<exists>v. (k, v) \<in> set (prod_section ?r) \<and>
                        map_of (get_dependencies g (repo_name ?r)) k =
                          Some \<lparr>spec_type = Prod, spec_version = v, spec_resolved = None\<rparr>)) \<and>
                (k \<notin> fst ` set (peer_section ?r) \<and> k \<notin> fst ` set (prod_section ?r) \<and>
                 k \<in> fst ` set (dev_section ?r) \<longrightarrow>
                   (\<exists>v. (k, v) \<in> set (dev_section ?r) \<and>
                        map_of (get_dependencies g (repo_name ?r)) k =
                          Some \<lparr>spec_type = Dev, spec_version = v, spec_resolved = None\<rparr>)) \<and>
                (k \<notin> fst ` set (peer_section ?r) \<and> k \<notin> fst ` set (prod_section ?r) \<and>
                 k \<notin> fst ` set (dev_section ?r) \<longrightarrow>
                   map_of (get_dependencies g (repo_name ?r)) k = None)"
      by (elim exE conjE)
    have "map_of (get_dependencies g ''x'') ''y'' = Some (mk_spec Peer ''3'')"
      using p [rule_format, of "''y''", THEN conjunct1] by (simp add: s mk_spec_def)
    moreover have "map_of (get_dependencies g ''x'') ''z'' = Some (mk_spec Prod ''2'')"
      using p [rule_format, of "''z''", THEN conjunct2, THEN conjunct1] by (simp add: s mk_spec_def)
    moreover have "map_of (get_dependencies g ''x'') ''w'' = Some (mk_spec Dev ''6'')"
      using p [rule_format, of "''w''", THEN conjunct2, THEN conjunct2, THEN conjunct1] by (simp add: s mk_spec_def)
    ultimately show ?thesis using g by blast
  qed
  then show ?thesis .
qed

section \<open>The depth-first search returns\<close>

lemma visited_record_cycle [simp]: "visited (record_cycle path d st) = visited st"
  by (simp add: record_cycle_def Let_def)

lemma rec_stack_record_cycle [simp]: "rec_stack (record_cycle path d st) = rec_stack st"
  by (simp add: record_cycle_def Let_def)

lemma unvisited_pos:
  assumes "nm \<in> set (map fst (nodes g))" "nm \<notin> set (visited st)"
  shows "0 < card (set (map fst (nodes g)) - set (visited st))"
proof -
  have "nm \<in> set (map fst (nodes g)) - set (visited st)" using assms by simp
  moreover have "finite (set (map fst (nodes g)) - set (visited st))" by simp
  ultimately show ?thesis by (metis card_gt_0_iff empty_iff)
qed

lemma unvisited_mono:
  assumes "set (visited st) \<subseteq> set (visited st')"
  shows "card (set (map fst (nodes g)) - set (visited st')) \<le> card (set (map fst (nodes g)) - set (visited st))"
  by (rule card_mono) (use assms in auto)

lemma unvisited_less:
  assumes "nm \<in> set (map fst (nodes g))" "nm \<notin> set (visited st)"
  shows "card (set (map fst (nodes g)) - insert nm (set (visited st)))
           < card (set (map fst (nodes g)) - set (visited st))"
  by (rule psubset_card_mono) (use assms in auto)

lemma dfs_deps_total:
  assumes dfs: "\<And>nm path st. nm \<in> set (map fst (nodes g)) \<Longrightarrow> nm \<notin> set (visited st) \<Longrightarrow>
            card (set (map fst (nodes g)) - set (visited st)) \<le> fuel \<Longrightarrow>
            \<exists>st'. dfs fuel g include_spec nm path st = Some st' \<and> set (visited st) \<subseteq> set (visited st')"
  shows "card (set (map fst (nodes g)) - set (visited st)) \<le> fuel \<Longrightarrow>
         \<exists>st'. dfs_deps fuel g include_spec path deps st = Some st' \<and> set (visited st) \<subseteq> set (visited st')"
proof (induction deps arbitrary: st)
  case Nil
  then show ?case by simp
next
  case (Cons d deps)
  obtain dep_name spec where d: "d = (dep_name, spec)" by (cases d)
  show ?case
  proof (cases "include_spec spec \<and> map_has (nodes g) dep_name \<and> dep_name \<notin> set (visited st)")
    case True
    then have "dep_name \<in> set (map fst (nodes g))" by (simp add: map_has_def)
    then obtain st1 where st1: "dfs fuel g include_spec dep_name path st = Some st1"
        "set (visited st) \<subseteq> set (visited st1)"
      using dfs [of dep_name st path] True Cons.prems by blast
    have "card (set (map fst (nodes g)) - set (visited st1)) \<le> fuel"
      using unvisited_mono [OF st1(2), of g] Cons.prems by simp
    then obtain st' where "dfs_deps fuel g include_spec path deps st1 = Some st'"
        "set (visited st1) \<subseteq> set (visited st')"
      using Cons.IH by blast
    then show ?thesis using True st1 d by auto
  next
    case False
    have "\<exists>st'. dfs_deps fuel g include_spec path deps (record_cycle path dep_name st) = Some st' \<and>
        set (visited (record_cycle path dep_name st)) \<subseteq> set (visited st')"
      by (rule Cons.IH) (use Cons.prems in simp)
    moreover have "\<exists>st'. dfs_deps fuel g include_spec path deps st = Some st' \<and>
        set (visited st) \<subseteq> set (visited st')"
      by (rule Cons.IH) (use Cons.prems in simp)
    ultimately show ?thesis using False d by auto
  qed
qed

lemma dfs_total:
  "nm \<in> set (map fst (nodes g)) \<Longrightarrow> nm \<notin> set (visited st) \<Longrightarrow>
   card (set (map fst (nodes g)) - set (visited st)) \<le> fuel \<Longrightarrow>
   \<exists>st'. dfs fuel g include_spec nm path st = Some st' \<and> set (visited st) \<subseteq> set (visited st')"
proof (induction fuel arbitrary: nm path st)
  case 0
  have "0 < card (set (map fst (nodes g)) - set (visited st))"
    using unvisited_pos [of nm g st] "0.prems"(1,2) by blast
  then have False using "0.prems"(3) by linarith
  then show ?case ..
next
  case (Suc fuel)
  let ?st1 = "st\<lparr>visited := set_add nm (visited st), rec_stack := set_add nm (rec_stack st)\<rparr>"
  have le: "card (set (map fst (nodes g)) - set (visited ?st1)) \<le> fuel"
    using unvisited_less [OF Suc.prems(1,2)] Suc.prems(3) by simp
  show ?case
  proof (cases "map_of (nodes g) nm")
    case None
    then show ?thesis by auto
  next
    case (Some node)
    obtain st2 where st2: "dfs_deps fuel g include_spec (path @ [nm]) (dependencies node) ?st1 = Some st2"
        "set (visited ?st1) \<subseteq> set (visited st2)"
      using dfs_deps_total [of g fuel include_spec ?st1 "path @ [nm]" "dependencies node"] Suc.IH le
      by blast
    then show ?thesis using Some by (auto simp: Let_def)
  qed
qed

lemma dfs_roots_total:
  "set roots \<subseteq> set (map fst (nodes g)) \<Longrightarrow>
   card (set (map fst (nodes g)) - set (visited st)) \<le> fuel \<Longrightarrow>
   \<exists>st'. dfs_roots fuel g include_spec roots st = Some st'"
proof (induction roots arbitrary: st)
  case Nil
  then show ?case by simp
next
  case (Cons nm roots)
  show ?case
  proof (cases "nm \<in> set (visited st)")
    case True
    then show ?thesis using Cons by simp
  next
    case False
    have "nm \<in> set (map fst (nodes g))" using Cons.prems(1) by simp
    then obtain st1 where st1: "dfs fuel g include_spec nm [] st = Some st1"
        "set (visited st) \<subseteq> set (visited st1)"
      using dfs_total [of nm g st fuel include_spec "[]"] False Cons.prems(2) by blast
    have "card (set (map fst (nodes g)) - set (visited st1)) \<le> fuel"
      using unvisited_mono [OF st1(2), of g] Cons.prems(2) by simp
    then show ?thesis using Cons.IH [of st1] Cons.prems(1) st1(1) False by simp
  qed
qed

lemma find_cycles_total: "\<exists>cs. find_cycles g include_spec = Some cs"
proof -
  have "card (set (map fst (nodes g)) - set (visited \<lparr>cycles = [], visited = [], rec_stack = []\<rparr>))
       \<le> Suc (length (nodes g))"
    using card_length [of "map fst (nodes g)"] by simp
  then obtain st' where "dfs_roots (Suc (length (nodes g))) g include_spec (map fst (nodes g))
       \<lparr>cycles = [], visited = [], rec_stack = []\<rparr> = Some st'"
    using dfs_roots_total [of "map fst (nodes g)" g] by blast
  then show ?thesis by (simp add: find_cycles_def)
qed

lemma detect_cycles_by_type_total: "\<exists>pc dc. detect_cycles_by_type g = Some (pc, dc)"
  using find_cycles_total [of g "\<lambda>spec. spec_type spec \<noteq> Dev"] find_cycles_total [of g "\<lambda>spec. spec_type spec = Dev"]
  by (auto simp: detect_cycles_by_type_def)

section \<open>Claims about \<open>analyze\<close>\<close>

lemma scan_deps_eq:
  "scan_deps g pkg deps (wd, mp) =
     (wd @ map (\<lambda>(d, s). (pkg, d, spec_version s)) (filter (\<lambda>(d, s). spec_version s = ''*'') deps),
      mp @ map (\<lambda>(d, s). (pkg, d))
             (filter (\<lambda>(d, s). spec_type s = Peer \<and> \<not> map_has (nodes g) d) deps))"
proof (induction deps arbitrary: wd mp)
  case Nil
  then show ?case by simp
next
  case (Cons x deps)
  obtain d s where x: "x = (d, s)" by (cases x)
  show ?case
    by (cases "spec_version s = ''*''"; cases "spec_type s = Peer \<and> \<not> map_has (nodes g) d")
       (simp_all add: x Cons.IH Let_def)
qed

lemma scan_nodes_eq:
  "scan_nodes g nds (wd, mp) =
     (wd @ concat (map (\<lambda>node. map (\<lambda>(d, s). (name node, d, spec_version s))
                                 (filter (\<lambda>(d, s). spec_version s = ''*'') (dependencies node))) nds),
      mp @ concat (map (\<lambda>node. map (\<lambda>(d, s). (name node, d))
                                 (filter (\<lambda>(d, s). spec_type s = Peer \<and> \<not> map_has (nodes g) d)
                                    (dependencies node))) nds))"
  by (induction nds arbitrary: wd mp) (simp_all add: scan_deps_eq)

text \<open>Claim C7. \<open>analyze\<close> returns as \<open>wildcard_deps\<close> exactly the entries (node, dependency,
  version) whose spec has the version string \<open>*\<close>, whatever its type, and as
  \<open>missing_peers\<close> exactly the pairs (node, dependency) whose spec has type peer and whose
  dependency name is no node of the graph.\<close>

theorem analyze_findings:
  "\<exists>a. analyze g = Some a \<and>
       set (wildcard_deps a) =
         {(name node, d, ''*'') | node d s.
            node \<in> snd ` set (nodes g) \<and> (d, s) \<in> set (dependencies node) \<and> spec_version s = ''*''} \<and>
       set (missing_peers a) =
         {(name node, d) | node d s.
            node \<in> snd ` set (nodes g) \<and> (d, s) \<in> set (dependencies node) \<and>
            spec_type s = Peer \<and> \<not> map_has (nodes g) d}"
proof -
  obtain pc dc where c: "detect_cycles_by_type g = Some (pc, dc)"
    using detect_cycles_by_type_total by blast
  let ?wd = "concat (map (\<lambda>node. map (\<lambda>(d, s). (name node, d, spec_version s))
                                 (filter (\<lambda>(d, s). spec_version s = ''*'') (dependencies node)))
                (map snd (nodes g)))"
  let ?mp = "concat (map (\<lambda>node. map (\<lambda>(d, s). (name node, d))
                                 (filter (\<lambda>(d, s). spec_type s = Peer \<and> \<not> map_has (nodes g) d)
                                    (dependencies node))) (map snd (nodes g)))"
  have a: "analyze g = Some \<lparr>production_cycles = pc, dev_cycles = dc, wildcard_deps = ?wd, missing_peers = ?mp\<rparr>"
    using c by (simp add: analyze_def scan_nodes_eq)
  have w: "set ?wd = {(name node, d, ''*'') | node d s.
            node \<in> snd ` set (nodes g) \<and> (d, s) \<in> set (dependencies node) \<and> spec_version s = ''*''}"
    by (rule set_eqI) (auto; force)
  have m: "set ?mp = {(name node, d) | node d s.
            node \<in> snd ` set (nodes g) \<and> (d, s) \<in> set (dependencies node) \<and>
            spec_type s = Peer \<and> \<not> map_has (nodes g) d}"
    by (rule set_eqI) (auto; force)
  show ?thesis using a w m by simp
qed

section \<open>Properties of the topological sort\<close>

declare remove_zero_indegree.simps [simp del]

lemma remove_zero_indegree_None:
  "find (\<lambda>item. indegree remaining item = 0) remaining = None \<Longrightarrow>
   remove_zero_indegree remaining acc = (if remaining = [] then Inr acc else Inl (map fst remaining))"
  by (subst remove_zero_indegree.simps) (simp del: find_None_iff)

lemma remove_zero_indegree_Some:
  "find (\<lambda>item. indegree remaining item = 0) remaining = Some item \<Longrightarrow>
   remove_zero_indegree remaining acc = remove_zero_indegree (remove1 item remaining) (acc @ [item])"
  by (subst remove_zero_indegree.simps) simp

lemma indegree_zero_iff:
  "indegree remaining item = 0 \<longleftrightarrow> (\<forall>d \<in> set (snd item). d \<notin> fst ` set remaining)"
  by (auto simp: indegree_def filter_empty_conv)

lemma in_order_snoc:
  "in_order A (xs @ [x]) \<longleftrightarrow> in_order A xs \<and> set (snd x) \<inter> A \<subseteq> fst ` set xs"
proof
  assume a: "in_order A (xs @ [x])"
  have "set (snd (xs ! i)) \<inter> A \<subseteq> fst ` set (take i xs)" if "i < length xs" for i
    using a [unfolded in_order_def, rule_format, of i] that by (simp add: nth_append)
  moreover have "set (snd x) \<inter> A \<subseteq> fst ` set xs"
    using a [unfolded in_order_def, rule_format, of "length xs"] by simp
  ultimately show "in_order A xs \<and> set (snd x) \<inter> A \<subseteq> fst ` set xs"
    by (simp add: in_order_def)
next
  assume a: "in_order A xs \<and> set (snd x) \<inter> A \<subseteq> fst ` set xs"
  show "in_order A (xs @ [x])"
    unfolding in_order_def
  proof (intro allI impI)
    fix i assume "i < length (xs @ [x])"
    then consider "i < length xs" | "i = length xs" by fastforce
    then show "set (snd ((xs @ [x]) ! i)) \<inter> A \<subseteq> fst ` set (take i (xs @ [x]))"
    proof cases
      case 1
      then show ?thesis using a by (simp add: in_order_def nth_append)
    next
      case 2
      then show ?thesis using a by simp
    qed
  qed
qed

lemma remove_zero_indegree_mset:
  "remove_zero_indegree remaining acc = Inr out \<Longrightarrow> mset out = mset acc + mset remaining"
proof (induction remaining acc rule: remove_zero_indegree.induct)
  case (1 remaining acc)
  show ?case
  proof (cases "find (\<lambda>item. indegree remaining item = 0) remaining")
    case None
    then show ?thesis using "1.prems" by (simp add: remove_zero_indegree_None split: if_splits)
  next
    case (Some item)
    then have mem: "item \<in> set remaining" by (auto simp: find_Some_iff)
    have "remove_zero_indegree (remove1 item remaining) (acc @ [item]) = Inr out"
      using "1.prems" by (simp add: remove_zero_indegree_Some [OF Some])
    then have "mset out = mset (acc @ [item]) + mset (remove1 item remaining)"
      by (rule "1.IH" [OF Some])
    then show ?thesis using mem by simp
  qed
qed

lemma remove_zero_indegree_in_order:
  "remove_zero_indegree remaining acc = Inr out \<Longrightarrow> in_order A acc \<Longrightarrow>
   A \<subseteq> fst ` set acc \<union> fst ` set remaining \<Longrightarrow> in_order A out"
proof (induction remaining acc rule: remove_zero_indegree.induct)
  case (1 remaining acc)
  show ?case
  proof (cases "find (\<lambda>item. indegree remaining item = 0) remaining")
    case None
    then show ?thesis using "1.prems" by (simp add: remove_zero_indegree_None split: if_splits)
  next
    case (Some item)
    then have mem: "item \<in> set remaining" and z: "indegree remaining item = 0"
      by (auto simp: find_Some_iff)
    have r: "remove_zero_indegree (remove1 item remaining) (acc @ [item]) = Inr out"
      using "1.prems"(1) by (simp add: remove_zero_indegree_Some [OF Some])
    have "set (snd item) \<inter> A \<subseteq> fst ` set acc"
      using z "1.prems"(3) by (auto simp: indegree_zero_iff)
    then have o: "in_order A (acc @ [item])"
      using "1.prems"(2) by (simp add: in_order_snoc)
    have "set remaining \<subseteq> insert item (set (remove1 item remaining))"
    proof
      fix x assume "x \<in> set remaining"
      then show "x \<in> insert item (set (remove1 item remaining))"
        by (cases "x = item") (simp_all add: in_set_remove1)
    qed
    then have "fst ` set remaining \<subseteq> insert (fst item) (fst ` set (remove1 item remaining))"
      by blast
    then have "fst ` set acc \<union> fst ` set remaining
        \<subseteq> fst ` set (acc @ [item]) \<union> fst ` set (remove1 item remaining)"
      by (simp add: image_Un) blast
    then have s: "A \<subseteq> fst ` set (acc @ [item]) \<union> fst ` set (remove1 item remaining)"
      using "1.prems"(3) by (rule order.trans [rotated])
    show ?thesis by (rule "1.IH" [OF Some r o s])
  qed
qed

lemma item_rel_mono: "set xs \<subseteq> set ys \<Longrightarrow> item_rel xs \<subseteq> item_rel ys"
  unfolding item_rel_def by auto

lemma finite_item_rel: "finite (item_rel items)"
proof -
  have "item_rel items \<subseteq> fst ` set items \<times> fst ` set items"
    unfolding item_rel_def by force
  then show ?thesis by (rule finite_subset) simp
qed

lemma acyclic_has_zero_indegree:
  assumes "acyclic (item_rel remaining)" "remaining \<noteq> []"
  shows "\<exists>item \<in> set remaining. indegree remaining item = 0"
proof -
  have "wf (item_rel remaining)"
    using finite_item_rel assms(1) by (rule finite_acyclic_wf)
  moreover obtain x where "x \<in> fst ` set remaining" using assms(2) by (cases remaining) auto
  ultimately obtain z where z: "z \<in> fst ` set remaining"
      "\<And>y. (y, z) \<in> item_rel remaining \<Longrightarrow> y \<notin> fst ` set remaining"
    by (rule wfE_min) blast
  then obtain deps where item: "(z, deps) \<in> set remaining" by auto
  have "d \<notin> fst ` set remaining" if "d \<in> set deps" for d
  proof
    assume "d \<in> fst ` set remaining"
    then have "(d, z) \<in> item_rel remaining" using item that by (auto simp: item_rel_def)
    then show False using z(2) \<open>d \<in> fst ` set remaining\<close> by blast
  qed
  then have "indegree remaining (z, deps) = 0" by (simp add: indegree_zero_iff)
  then show ?thesis using item by blast
qed

lemma remove_zero_indegree_acyclic:
  "acyclic (item_rel remaining) \<Longrightarrow> \<exists>out. remove_zero_indegree remaining acc = Inr out"
proof (induction remaining acc rule: remove_zero_indegree.induct)
  case (1 remaining acc)
  show ?case
  proof (cases "find (\<lambda>item. indegree remaining item = 0) remaining")
    case None
    then have "\<not> (\<exists>item \<in> set remaining. indegree remaining item = 0)"
      unfolding find_None_iff by blast
    then have "remaining = []"
      using acyclic_has_zero_indegree [OF "1.prems"] by blast
    then show ?thesis unfolding remove_zero_indegree_None [OF None] by simp
  next
    case (Some item)
    have "item_rel (remove1 item remaining) \<subseteq> item_rel remaining"
      by (rule item_rel_mono) (rule set_remove1_subset)
    then have "acyclic (item_rel (remove1 item remaining))"
      using "1.prems" acyclic_subset by blast
    then show ?thesis using "1.IH" [OF Some] by (simp add: remove_zero_indegree_Some [OF Some])
  qed
qed

lemma takeWhile_nth:
  "distinct xs \<Longrightarrow> j < length xs \<Longrightarrow> takeWhile (\<lambda>y. y \<noteq> xs ! j) xs = take j xs"
proof (induction xs arbitrary: j)
  case Nil
  then show ?case by simp
next
  case (Cons x xs)
  show ?case
  proof (cases j)
    case 0
    then show ?thesis by simp
  next
    case (Suc k)
    then have "xs ! k \<in> set xs" using Cons.prems by simp
    then have "x \<noteq> xs ! k" using Cons.prems(1) by auto
    then show ?thesis using Suc Cons by simp
  qed
qed

lemma in_order_precedes:
  assumes o: "in_order A out" and d: "distinct (map fst out)"
    and e: "(n, deps) \<in> set out" "dep \<in> set deps" "dep \<in> A"
  shows "precedes dep n (map fst out)"
proof -
  obtain j where j: "j < length out" "out ! j = (n, deps)"
    using e(1) by (auto simp: in_set_conv_nth)
  have "dep \<in> fst ` set (take j out)"
    using o [unfolded in_order_def, rule_format, OF j(1)] j(2) e(2,3) by auto
  moreover have "takeWhile (\<lambda>y. y \<noteq> n) (map fst out) = take j (map fst out)"
    using takeWhile_nth [OF d, of j] j by simp
  ultimately have "dep \<in> set (takeWhile (\<lambda>y. y \<noteq> n) (map fst out))"
    by (simp add: take_map)
  moreover have "n \<in> set (map fst out)" using e(1) by force
  ultimately show ?thesis by (simp add: precedes_def)
qed

lemma length_takeWhile_mem:
  "a \<in> set xs \<Longrightarrow> length (takeWhile (\<lambda>x. x \<noteq> a) xs) < length xs"
  by (induction xs) auto

lemma precedes_length:
  assumes "precedes a b xs"
  shows "length (takeWhile (\<lambda>x. x \<noteq> a) xs) < length (takeWhile (\<lambda>x. x \<noteq> b) xs)"
proof -
  let ?p = "takeWhile (\<lambda>x. x \<noteq> b) xs"
  let ?q = "dropWhile (\<lambda>x. x \<noteq> b) xs"
  have a: "a \<in> set ?p" using assms by (simp add: precedes_def)
  have "takeWhile (\<lambda>x. x \<noteq> a) (?p @ ?q) = takeWhile (\<lambda>x. x \<noteq> a) ?p"
    by (rule takeWhile_append1 [OF a]) simp
  then have "takeWhile (\<lambda>x. x \<noteq> a) xs = takeWhile (\<lambda>x. x \<noteq> a) ?p"
    by simp
  then show ?thesis using length_takeWhile_mem [OF a] by simp
qed

lemma precedes_acyclic:
  assumes "\<And>d n. (d, n) \<in> r \<Longrightarrow> precedes d n xs"
  shows "acyclic r"
proof -
  have "acyclic (r\<inverse>)"
  proof (rule acyclicI_order [where f = "\<lambda>x. length (takeWhile (\<lambda>y. y \<noteq> x) xs)"])
    fix a b assume "(a, b) \<in> r\<inverse>"
    then have "precedes b a xs" using assms by simp
    then show "length (takeWhile (\<lambda>y. y \<noteq> b) xs) < length (takeWhile (\<lambda>y. y \<noteq> a) xs)"
      by (rule precedes_length)
  qed
  then show ?thesis by simp
qed

lemma wf_graph_name: "wf_graph g \<Longrightarrow> (k, node) \<in> set (nodes g) \<Longrightarrow> name node = k"
  by (auto simp: wf_graph_def list_all_iff)

lemma wf_graph_lookup: "wf_graph g \<Longrightarrow> map_of (nodes g) k = Some node \<longleftrightarrow> (k, node) \<in> set (nodes g)"
  by (simp add: wf_graph_def)

lemma sort_items_ids: "wf_graph g \<Longrightarrow> map fst (sort_items g exclude_dev) = map fst (nodes g)"
  by (auto simp: sort_items_def wf_graph_name)

lemma in_depends_on:
  "d \<in> set (depends_on g exclude_dev node) \<longleftrightarrow>
     (\<exists>spec. (d, spec) \<in> set (dependencies node) \<and> map_has (nodes g) d \<and>
             \<not> (exclude_dev \<and> spec_type spec = Dev))"
  by (auto simp: depends_on_def split: if_splits) force+

lemma item_rel_sort_items:
  assumes "wf_graph g"
  shows "item_rel (sort_items g exclude_dev) = retained_edges g exclude_dev"
proof (rule set_eqI, rule iffI)
  fix e assume "e \<in> item_rel (sort_items g exclude_dev)"
  then obtain d n deps where e: "e = (d, n)" "(n, deps) \<in> set (sort_items g exclude_dev)" "d \<in> set deps"
    by (auto simp: item_rel_def)
  then obtain k node where node: "(k, node) \<in> set (nodes g)" "n = name node"
      "deps = depends_on g exclude_dev node"
    by (auto simp: sort_items_def)
  have "k = n" using wf_graph_name [OF assms node(1)] node(2) by simp
  then have "map_of (nodes g) n = Some node" using node(1) assms by (simp add: wf_graph_lookup)
  moreover obtain spec where "(d, spec) \<in> set (dependencies node)" "map_has (nodes g) d"
      "\<not> (exclude_dev \<and> spec_type spec = Dev)"
    using e(3) node(3) by (auto simp: in_depends_on)
  ultimately show "e \<in> retained_edges g exclude_dev"
    unfolding retained_edges_def e(1) by blast
next
  fix e assume "e \<in> retained_edges g exclude_dev"
  then obtain d n node spec where e: "e = (d, n)" "map_of (nodes g) n = Some node"
      "(d, spec) \<in> set (dependencies node)" "map_has (nodes g) d"
      "\<not> (exclude_dev \<and> spec_type spec = Dev)"
    by (auto simp: retained_edges_def)
  have mem: "(n, node) \<in> set (nodes g)" using e(2) by (rule map_of_SomeD)
  then have "name node = n" using wf_graph_name [OF assms] by blast
  then have "(n, depends_on g exclude_dev node) \<in> set (sort_items g exclude_dev)"
    using mem by (force simp: sort_items_def)
  moreover have "d \<in> set (depends_on g exclude_dev node)"
    using e(3,4,5) by (auto simp: in_depends_on)
  moreover have "d \<in> fst ` set (sort_items g exclude_dev)"
    using e(4) sort_items_ids [OF assms, of exclude_dev] by (metis map_has_def set_map)
  ultimately show "e \<in> item_rel (sort_items g exclude_dev)"
    unfolding item_rel_def e(1) by blast
qed

lemma topological_sort_unfold:
  "topological_sort g exclude_dev =
     (case remove_zero_indegree (sort_items g exclude_dev) [] of
        Inl unresolved \<Rightarrow> Inl (Error unresolved)
      | Inr sorted_items \<Rightarrow> Inr (map fst sorted_items))"
  by (simp add: topological_sort_def topological_sort_generic_def sort_items_def)

lemma sorted_items_ok:
  assumes wf: "wf_graph g" and r: "remove_zero_indegree (sort_items g exclude_dev) [] = Inr out"
  shows "mset (map fst out) = mset (map fst (nodes g))"
    and "(d, n) \<in> retained_edges g exclude_dev \<Longrightarrow> precedes d n (map fst out)"
proof -
  let ?items = "sort_items g exclude_dev"
  have m: "mset out = mset ?items" using remove_zero_indegree_mset [OF r] by simp
  then have "mset (map fst out) = mset (map fst ?items)" by (metis mset_map)
  then show ids: "mset (map fst out) = mset (map fst (nodes g))"
    using sort_items_ids [OF wf] by simp
  have "distinct (map fst (nodes g))" using wf by (simp add: wf_graph_def)
  then have d: "distinct (map fst out)" using ids by (metis mset_eq_imp_distinct_iff)
  have o: "in_order (fst ` set ?items) out"
    by (rule remove_zero_indegree_in_order [OF r]) (simp_all add: in_order_def)
  assume "(d, n) \<in> retained_edges g exclude_dev"
  then have "(d, n) \<in> item_rel ?items" using item_rel_sort_items [OF wf] by simp
  then obtain deps where "(n, deps) \<in> set ?items" "d \<in> set deps" "d \<in> fst ` set ?items"
    by (auto simp: item_rel_def)
  moreover have "set out = set ?items" using m by (metis set_mset_mset)
  ultimately show "precedes d n (map fst out)"
    using in_order_precedes [OF o d] by blast
qed

lemma topological_sort_acyclic:
  assumes "wf_graph g" "acyclic (retained_edges g exclude_dev)"
  shows "\<exists>order. topological_sort g exclude_dev = Inr order \<and>
           mset order = mset (map fst (nodes g)) \<and>
           (\<forall>d n. (d, n) \<in> retained_edges g exclude_dev \<longrightarrow> precedes d n order)"
proof -
  have "acyclic (item_rel (sort_items g exclude_dev))"
    using assms by (simp add: item_rel_sort_items)
  then obtain out where out: "remove_zero_indegree (sort_items g exclude_dev) [] = Inr out"
    using remove_zero_indegree_acyclic by blast
  then have "topological_sort g exclude_dev = Inr (map fst out)"
    by (simp add: topological_sort_unfold)
  then show ?thesis using sorted_items_ok [OF assms(1) out] by blast
qed

lemma topological_sort_Inr_acyclic:
  assumes "wf_graph g" "topological_sort g exclude_dev = Inr order"
  shows "acyclic (retained_edges g exclude_dev)"
proof -
  obtain out where out: "remove_zero_indegree (sort_items g exclude_dev) [] = Inr out"
    using assms(2) by (auto simp: topological_sort_unfold split: sum.splits)
  show ?thesis
    by (rule precedes_acyclic [of _ "map fst out"]) (rule sorted_items_ok(2) [OF assms(1) out])
qed

lemma topological_sort_error:
  "topological_sort g exclude_dev = Inl e \<Longrightarrow> \<exists>names. e = Error names"
  by (auto simp: topological_sort_unfold split: sum.splits)

lemma blocked_pred:
  assumes "n \<in> blocked r"
  shows "\<exists>p \<in> blocked r. (p, n) \<in> r"
proof -
  obtain c where c: "(c, c) \<in> r\<^sup>+" "(c, n) \<in> r\<^sup>*" using assms by (auto simp: blocked_def)
  have "(c, n) \<in> r\<^sup>+"
    using c by (metis rtranclD)
  then obtain p where "(c, p) \<in> r\<^sup>*" "(p, n) \<in> r" by (metis tranclD2)
  then show ?thesis using c(1) by (auto simp: blocked_def)
qed

lemma distinct_ids_remove1:
  "distinct (map fst xs) \<Longrightarrow> distinct (map fst (remove1 x xs))"
proof -
  assume "distinct (map fst xs)"
  then have "distinct xs" "inj_on fst (set xs)" by (simp_all add: distinct_map)
  then have "distinct (remove1 x xs)" "inj_on fst (set (remove1 x xs))"
    by (simp_all add: inj_on_def)
  then show ?thesis by (simp add: distinct_map)
qed

lemma ids_remove1:
  assumes "distinct (map fst xs)" "x \<in> set xs"
  shows "fst ` set (remove1 x xs) = fst ` set xs - {fst x}"
proof -
  have "distinct xs" "inj_on fst (set xs)" using assms(1) by (simp_all add: distinct_map)
  then have eq: "set (remove1 x xs) = set xs - {x}" by simp
  show ?thesis
  proof (rule set_eqI, rule iffI)
    fix k assume "k \<in> fst ` set (remove1 x xs)"
    then obtain y where y: "y \<in> set xs" "y \<noteq> x" "k = fst y" using eq by auto
    then have "fst y \<noteq> fst x" using \<open>inj_on fst (set xs)\<close> assms(2) by (meson inj_onD)
    then show "k \<in> fst ` set xs - {fst x}" using y by simp
  next
    fix k assume "k \<in> fst ` set xs - {fst x}"
    then obtain y where "y \<in> set xs" "k = fst y" "fst y \<noteq> fst x" by auto
    then show "k \<in> fst ` set (remove1 x xs)" using eq by force
  qed
qed

lemma remove_zero_indegree_Inl:
  "remove_zero_indegree remaining acc = Inl names \<Longrightarrow> distinct (map fst remaining) \<Longrightarrow>
   \<exists>rest. names = map fst rest \<and> rest \<noteq> [] \<and> set rest \<subseteq> set remaining \<and> distinct names \<and> stuck rest"
proof (induction remaining acc rule: remove_zero_indegree.induct)
  case (1 remaining acc)
  show ?case
  proof (cases "find (\<lambda>item. indegree remaining item = 0) remaining")
    case None
    then have all: "stuck remaining"
      by (auto simp: find_None_iff stuck_def)
    have "remaining \<noteq> []" "names = map fst remaining"
      using "1.prems"(1) by (simp_all add: remove_zero_indegree_None [OF None] split: if_splits)
    then show ?thesis using all "1.prems"(2) by blast
  next
    case (Some item)
    have r: "remove_zero_indegree (remove1 item remaining) (acc @ [item]) = Inl names"
      using "1.prems"(1) by (simp add: remove_zero_indegree_Some [OF Some])
    have d: "distinct (map fst (remove1 item remaining))"
      using "1.prems"(2) by (rule distinct_ids_remove1)
    obtain rest where "names = map fst rest" "rest \<noteq> []" "set rest \<subseteq> set (remove1 item remaining)"
        "distinct names" "stuck rest"
      using "1.IH" [OF Some r d] by blast
    moreover have "set (remove1 item remaining) \<subseteq> set remaining" by (rule set_remove1_subset)
    ultimately show ?thesis by blast
  qed
qed

lemma remove_zero_indegree_keeps_blocked:
  assumes items: "distinct (map fst items)"
  shows "remove_zero_indegree remaining acc = Inl names \<Longrightarrow> set remaining \<subseteq> set items \<Longrightarrow>
         distinct (map fst remaining) \<Longrightarrow>
         blocked (item_rel items) \<subseteq> fst ` set remaining \<Longrightarrow> blocked (item_rel items) \<subseteq> set names"
proof (induction remaining acc rule: remove_zero_indegree.induct)
  case (1 remaining acc)
  show ?case
  proof (cases "find (\<lambda>item. indegree remaining item = 0) remaining")
    case None
    then have "names = map fst remaining"
      using "1.prems"(1) by (simp add: remove_zero_indegree_None split: if_splits)
    then show ?thesis using "1.prems"(4) by simp
  next
    case (Some item)
    then have mem: "item \<in> set remaining" and z: "indegree remaining item = 0"
      by (auto simp: find_Some_iff)
    have r: "remove_zero_indegree (remove1 item remaining) (acc @ [item]) = Inl names"
      using "1.prems"(1) by (simp add: remove_zero_indegree_Some [OF Some])
    have s: "set (remove1 item remaining) \<subseteq> set items"
      using "1.prems"(2) set_remove1_subset by fast
    have d: "distinct (map fst (remove1 item remaining))"
      using "1.prems"(3) by (rule distinct_ids_remove1)
    have "fst item \<notin> blocked (item_rel items)"
    proof
      assume "fst item \<in> blocked (item_rel items)"
      then obtain p where p: "p \<in> blocked (item_rel items)" "(p, fst item) \<in> item_rel items"
        using blocked_pred by blast
      then obtain deps where deps: "(fst item, deps) \<in> set items" "p \<in> set deps"
        by (auto simp: item_rel_def)
      have "item \<in> set items" using mem "1.prems"(2) by blast
      then have "(fst item, snd item) \<in> set items" by simp
      then have "deps = snd item"
        using deps(1) items by (metis eq_key_imp_eq_value)
      then have "p \<in> set (snd item)" using deps(2) by simp
      moreover have "p \<in> fst ` set remaining" using p(1) "1.prems"(4) by blast
      ultimately show False using z by (auto simp: indegree_zero_iff)
    qed
    then have nb: "fst item \<notin> blocked (item_rel items)" .
    have b: "blocked (item_rel items) \<subseteq> fst ` set (remove1 item remaining)"
    proof
      fix k assume k: "k \<in> blocked (item_rel items)"
      then have "k \<in> fst ` set remaining" using "1.prems"(4) by (rule subsetD [rotated])
      moreover have "k \<noteq> fst item" using k nb by metis
      ultimately show "k \<in> fst ` set (remove1 item remaining)"
        by (simp add: ids_remove1 [OF "1.prems"(3) mem])
    qed
    show ?thesis by (rule "1.IH" [OF Some r s d b])
  qed
qed

lemma stuck_blocked:
  assumes stuck: "stuck rest" and n: "n \<in> fst ` set rest"
  shows "n \<in> blocked (item_rel rest)"
proof -
  let ?R = "item_rel rest"
  let ?Rn = "{(a, b). (a, b) \<in> ?R \<and> (b, n) \<in> ?R\<^sup>*}"
  let ?A = "{d. d \<in> fst ` set rest \<and> (d, n) \<in> ?R\<^sup>*}"
  have pred: "\<exists>p \<in> fst ` set rest. (p, z) \<in> ?R" if h: "z \<in> fst ` set rest" for z
  proof -
    obtain deps where item: "(z, deps) \<in> set rest" using h by auto
    then have "indegree rest (z, deps) \<noteq> 0" using stuck by (auto simp: stuck_def)
    then obtain d where d: "d \<in> set deps" "d \<in> fst ` set rest"
      by (auto simp: indegree_zero_iff)
    then have "(d, z) \<in> item_rel rest"
      unfolding item_rel_def using item by blast
    then show ?thesis using d(2) by blast
  qed
  have "\<not> acyclic ?Rn"
  proof
    assume "acyclic ?Rn"
    moreover have "?Rn \<subseteq> ?R" by blast
    then have "finite ?Rn" using finite_item_rel [of rest] by (rule finite_subset)
    ultimately have "wf ?Rn" by (rule finite_acyclic_wf [rotated])
    moreover have "n \<in> ?A" using n by simp
    ultimately obtain z where z: "z \<in> ?A" "\<And>y. (y, z) \<in> ?Rn \<Longrightarrow> y \<notin> ?A"
      by (rule wfE_min) blast
    obtain p where p: "p \<in> fst ` set rest" "(p, z) \<in> ?R" using pred z(1) by blast
    have zn: "(z, n) \<in> ?R\<^sup>*" using z(1) by blast
    have "(p, z) \<in> ?Rn" using p(2) zn by blast
    moreover have "(p, n) \<in> ?R\<^sup>*" using p(2) zn by (rule converse_rtrancl_into_rtrancl)
    ultimately show False using z(2) p(1) by blast
  qed
  then obtain c where c: "(c, c) \<in> ?Rn\<^sup>+" by (auto simp: acyclic_def)
  have "?Rn \<subseteq> ?R" by blast
  then have 1: "(c, c) \<in> ?R\<^sup>+" using trancl_mono [OF c] by blast
  obtain y where "(c, y) \<in> ?Rn" using tranclD [OF c] by blast
  then have "(c, y) \<in> ?R" "(y, n) \<in> ?R\<^sup>*" by blast+
  then have 2: "(c, n) \<in> ?R\<^sup>*" by (rule converse_rtrancl_into_rtrancl)
  show ?thesis using 1 2 by (auto simp: blocked_def)
qed

lemma blocked_mono: "r \<subseteq> s \<Longrightarrow> blocked r \<subseteq> blocked s"
proof
  fix n assume s: "r \<subseteq> s" and "n \<in> blocked r"
  then obtain c where "(c, c) \<in> r\<^sup>+" "(c, n) \<in> r\<^sup>*" by (auto simp: blocked_def)
  then have "(c, c) \<in> s\<^sup>+" "(c, n) \<in> s\<^sup>*"
    using s trancl_mono [of "(c, c)" r s] rtrancl_mono [OF s] by blast+
  then show "n \<in> blocked s" by (auto simp: blocked_def)
qed

lemma blocked_ids: "blocked (item_rel items) \<subseteq> fst ` set items"
proof
  fix n assume "n \<in> blocked (item_rel items)"
  then obtain p where "(p, n) \<in> item_rel items" using blocked_pred by blast
  then show "n \<in> fst ` set items" by (force simp: item_rel_def)
qed

lemma unresolved_blocked:
  assumes "distinct (map fst items)" "remove_zero_indegree items [] = Inl names"
  shows "names \<noteq> [] \<and> distinct names \<and> set names = blocked (item_rel items)"
proof -
  obtain rest where rest: "names = map fst rest" "rest \<noteq> []" "set rest \<subseteq> set items" "distinct names"
      "stuck rest"
    using remove_zero_indegree_Inl [OF assms(2,1)] by blast
  have "set names \<subseteq> blocked (item_rel rest)"
    using stuck_blocked [OF rest(5)] rest(1) by auto
  moreover have "blocked (item_rel rest) \<subseteq> blocked (item_rel items)"
    by (rule blocked_mono [OF item_rel_mono [OF rest(3)]])
  moreover have "blocked (item_rel items) \<subseteq> set names"
    by (rule remove_zero_indegree_keeps_blocked [OF assms(1,2) _ assms(1) blocked_ids]) simp
  ultimately show ?thesis using rest(1,2,4) by auto
qed

lemma topological_sort_Inl:
  assumes "wf_graph g" "topological_sort g exclude_dev = Inl e"
  shows "\<exists>names. e = Error names \<and> names \<noteq> [] \<and> distinct names \<and>
           set names = blocked (retained_edges g exclude_dev)"
proof -
  obtain names where n: "remove_zero_indegree (sort_items g exclude_dev) [] = Inl names" "e = Error names"
    using assms(2) by (auto simp: topological_sort_unfold split: sum.splits)
  have "distinct (map fst (sort_items g exclude_dev))"
    using assms(1) by (simp add: sort_items_ids wf_graph_def)
  then show ?thesis
    using unresolved_blocked [OF _ n(1)] n(2) item_rel_sort_items [OF assms(1)] by auto
qed

lemma item_rel_code:
  "item_rel items =
     set (concat (map (\<lambda>(n, deps). map (\<lambda>d. (d, n)) (filter (\<lambda>d. d \<in> set (map fst items)) deps)) items))"
proof (rule set_eqI, rule iffI)
  fix e assume "e \<in> item_rel items"
  then obtain d n deps where e: "e = (d, n)" "(n, deps) \<in> set items" "d \<in> set deps" "d \<in> fst ` set items"
    by (auto simp: item_rel_def)
  then have "(d, n) \<in> set (map (\<lambda>d. (d, n)) (filter (\<lambda>d. d \<in> set (map fst items)) deps))"
    by simp
  then show "e \<in> set (concat (map (\<lambda>(n, deps). map (\<lambda>d. (d, n)) (filter (\<lambda>d. d \<in> set (map fst items)) deps)) items))"
    unfolding e(1) set_concat using e(2) by (intro UN_I [of "map (\<lambda>d. (d, n)) (filter (\<lambda>d. d \<in> set (map fst items)) deps)"]) force+
next
  fix e
  assume "e \<in> set (concat (map (\<lambda>(n, deps). map (\<lambda>d. (d, n)) (filter (\<lambda>d. d \<in> set (map fst items)) deps)) items))"
  then obtain n deps where "(n, deps) \<in> set items"
      "e \<in> set (map (\<lambda>d. (d, n)) (filter (\<lambda>d. d \<in> set (map fst items)) deps))"
    by auto
  then show "e \<in> item_rel items" by (auto simp: item_rel_def)
qed

lemma acyclic_empty: "acyclic {}"
  by (simp add: acyclic_def)

section \<open>Claims about \<open>topological_sort\<close>\<close>

text \<open>The claims about the sort are stated for well-formed graphs (\<open>wf_graph\<close>); every
  graph that \<open>build_from_repos\<close> returns is one (\<open>built_wf\<close>).\<close>

text \<open>Claim C1. For every graph that is acyclic with respect to its retained non-dev edges
  (a dependency of type prod or peer whose target is a graph node), \<open>topological_sort(true)\<close>
  returns a permutation of all node names in which, for every retained edge, the dependency
  comes before the dependent.\<close>

theorem topological_sort_orders:
  assumes "wf_graph g" and "acyclic (retained_edges g True)"
  shows "\<exists>order. topological_sort g True = Inr order \<and>
           mset order = mset (map fst (nodes g)) \<and>
           (\<forall>(d, n) \<in> retained_edges g True. precedes d n order)"
  using topological_sort_acyclic [OF assms] by fast

theorem topological_sort_orders_witness:
  "wf_graph \<lparr>nodes = [(''a'', mk_node ''a'' [(''b'', mk_spec Prod ''^1.0.0'')] []),
                      (''b'', mk_node ''b'' [] [''a''])],
             edges = [(''a'', []), (''b'', [''a''])]\<rparr> \<and>
   acyclic (retained_edges \<lparr>nodes = [(''a'', mk_node ''a'' [(''b'', mk_spec Prod ''^1.0.0'')] []),
                      (''b'', mk_node ''b'' [] [''a''])],
             edges = [(''a'', []), (''b'', [''a''])]\<rparr> True) \<and>
   topological_sort \<lparr>nodes = [(''a'', mk_node ''a'' [(''b'', mk_spec Prod ''^1.0.0'')] []),
                      (''b'', mk_node ''b'' [] [''a''])],
             edges = [(''a'', []), (''b'', [''a''])]\<rparr> True = Inr [''b'', ''a''] \<and>
   precedes ''b'' ''a'' [''b'', ''a'']"
proof -
  let ?g = "\<lparr>nodes = [(''a'', mk_node ''a'' [(''b'', mk_spec Prod ''^1.0.0'')] []),
                      (''b'', mk_node ''b'' [] [''a''])],
             edges = [(''a'', []), (''b'', [''a''])]\<rparr>"
  have wf: "wf_graph ?g" by (simp add: wf_graph_def mk_node_def)
  have si: "sort_items ?g True = [(''a'', [''b'']), (''b'', [])]" by code_simp
  have r: "retained_edges ?g True = {(''b'', ''a'')}"
    unfolding item_rel_sort_items [OF wf, symmetric] si by (simp add: item_rel_code)
  have ac: "acyclic (retained_edges ?g True)" unfolding r by (simp add: acyclic_empty)
  have s: "topological_sort ?g True = Inr [''b'', ''a'']" by code_simp
  have "(''b'', ''a'') \<in> retained_edges ?g True" unfolding r by simp
  moreover note t = topological_sort_orders [OF wf ac, unfolded s]
  ultimately have "precedes ''b'' ''a'' [''b'', ''a'']" by blast
  then show ?thesis using wf ac s by (intro conjI)
qed

text \<open>Claim C3. \<open>topological_sort(exclude_dev)\<close> raises an error exactly when the filtered
  graph (the edges to graph nodes, without the dev edges when \<open>exclude_dev\<close> is true) is not
  acyclic, and the error carries the unresolved node names: the nodes on a cycle of the
  filtered graph and the nodes that depend on one, directly or through other nodes.\<close>

theorem topological_sort_fails_iff_cyclic:
  assumes "wf_graph g"
  shows "((\<exists>e. topological_sort g exclude_dev = Inl e) \<longleftrightarrow> \<not> acyclic (retained_edges g exclude_dev)) \<and>
         (\<forall>e. topological_sort g exclude_dev = Inl e \<longrightarrow>
            (\<exists>names. e = Error names \<and> names \<noteq> [] \<and> distinct names \<and>
               set names = blocked (retained_edges g exclude_dev)))"
proof (intro conjI iffI allI impI)
  assume "\<exists>e. topological_sort g exclude_dev = Inl e"
  then show "\<not> acyclic (retained_edges g exclude_dev)"
    using topological_sort_acyclic [OF assms, of exclude_dev] by auto
next
  assume "\<not> acyclic (retained_edges g exclude_dev)"
  then have "\<And>order. topological_sort g exclude_dev \<noteq> Inr order"
    using topological_sort_Inr_acyclic [OF assms] by blast
  then show "\<exists>e. topological_sort g exclude_dev = Inl e"
    by (cases "topological_sort g exclude_dev") auto
next
  fix e assume "topological_sort g exclude_dev = Inl e"
  then show "\<exists>names. e = Error names \<and> names \<noteq> [] \<and> distinct names \<and>
               set names = blocked (retained_edges g exclude_dev)"
    by (rule topological_sort_Inl [OF assms])
qed

theorem topological_sort_fails_iff_cyclic_witness:
  "wf_graph \<lparr>nodes = [(''a'', mk_node ''a'' [(''b'', mk_spec Prod ''^1.0.0'')] [''b'', ''c'']),
                      (''b'', mk_node ''b'' [(''a'', mk_spec Peer ''^1.0.0'')] [''a'']),
                      (''c'', mk_node ''c'' [(''a'', mk_spec Prod ''^1.0.0'')] []),
                      (''d'', mk_node ''d'' [] [])],
             edges = [(''a'', [''b'', ''c'']), (''b'', [''a'']), (''c'', []), (''d'', [])]\<rparr> \<and>
   topological_sort \<lparr>nodes = [(''a'', mk_node ''a'' [(''b'', mk_spec Prod ''^1.0.0'')] [''b'', ''c'']),
                      (''b'', mk_node ''b'' [(''a'', mk_spec Peer ''^1.0.0'')] [''a'']),
                      (''c'', mk_node ''c'' [(''a'', mk_spec Prod ''^1.0.0'')] []),
                      (''d'', mk_node ''d'' [] [])],
             edges = [(''a'', [''b'', ''c'']), (''b'', [''a'']), (''c'', []), (''d'', [])]\<rparr> True
     = Inl (Error [''a'', ''b'', ''c'']) \<and>
   blocked (retained_edges \<lparr>nodes = [(''a'', mk_node ''a'' [(''b'', mk_spec Prod ''^1.0.0'')] [''b'', ''c'']),
                      (''b'', mk_node ''b'' [(''a'', mk_spec Peer ''^1.0.0'')] [''a'']),
                      (''c'', mk_node ''c'' [(''a'', mk_spec Prod ''^1.0.0'')] []),
                      (''d'', mk_node ''d'' [] [])],
             edges = [(''a'', [''b'', ''c'']), (''b'', [''a'']), (''c'', []), (''d'', [])]\<rparr> True)
     = {''a'', ''b'', ''c''}"
proof -
  let ?g = "\<lparr>nodes = [(''a'', mk_node ''a'' [(''b'', mk_spec Prod ''^1.0.0'')] [''b'', ''c'']),
                      (''b'', mk_node ''b'' [(''a'', mk_spec Peer ''^1.0.0'')] [''a'']),
                      (''c'', mk_node ''c'' [(''a'', mk_spec Prod ''^1.0.0'')] []),
                      (''d'', mk_node ''d'' [] [])],
             edges = [(''a'', [''b'', ''c'']), (''b'', [''a'']), (''c'', []), (''d'', [])]\<rparr>"
  have wf: "wf_graph ?g" by (simp add: wf_graph_def mk_node_def)
  have s: "topological_sort ?g True = Inl (Error [''a'', ''b'', ''c''])" by code_simp
  note t = topological_sort_fails_iff_cyclic [OF wf, of True, THEN conjunct2, rule_format, OF s]
  then obtain names where n: "Error [''a'', ''b'', ''c''] = Error names"
      "set names = blocked (retained_edges ?g True)"
    by (elim exE conjE)
  from n(1) have "names = [''a'', ''b'', ''c'']" by simp
  then have "blocked (retained_edges ?g True) = {''a'', ''b'', ''c''}" using n(2) by simp
  then show ?thesis using wf s by (intro conjI)
qed

text \<open>Claim C4. For every graph that has a cycle among its edges to graph nodes but none
  among the non-dev ones (so every cycle has a dev edge, as when the only cycle consists of
  dev edges), \<open>topological_sort(true)\<close> returns an ordering of all node names and
  \<open>topological_sort(false)\<close> fails with an ordering error; \<open>compute_publishing_order\<close> is
  \<open>topological_sort(true)\<close>.\<close>

theorem dev_cycles_do_not_block:
  assumes "wf_graph g" and "acyclic (retained_edges g True)" and "\<not> acyclic (retained_edges g False)"
  shows "(\<exists>order. topological_sort g True = Inr order \<and> mset order = mset (map fst (nodes g)) \<and>
            compute_publishing_order g = Inr order) \<and>
         (\<exists>names. topological_sort g False = Inl (Error names))"
proof -
  obtain order where o: "topological_sort g True = Inr order" "mset order = mset (map fst (nodes g))"
    using topological_sort_acyclic [OF assms(1,2)] by blast
  have "\<And>order. topological_sort g False \<noteq> Inr order"
    using topological_sort_Inr_acyclic [OF assms(1)] assms(3) by blast
  then obtain e where "topological_sort g False = Inl e"
    by (cases "topological_sort g False") auto
  then obtain names where "topological_sort g False = Inl (Error names)"
    using topological_sort_error by blast
  then show ?thesis using o by (auto simp: compute_publishing_order_def)
qed

theorem dev_cycles_do_not_block_witness:
  "wf_graph \<lparr>nodes = [(''a'', mk_node ''a'' [(''b'', mk_spec Dev ''^1.0.0'')] [''b'']),
                      (''b'', mk_node ''b'' [(''a'', mk_spec Dev ''^1.0.0'')] [''a''])],
             edges = [(''a'', [''b'']), (''b'', [''a''])]\<rparr> \<and>
   acyclic (retained_edges \<lparr>nodes = [(''a'', mk_node ''a'' [(''b'', mk_spec Dev ''^1.0.0'')] [''b'']),
                      (''b'', mk_node ''b'' [(''a'', mk_spec Dev ''^1.0.0'')] [''a''])],
             edges = [(''a'', [''b'']), (''b'', [''a''])]\<rparr> True) \<and>
   \<not> acyclic (retained_edges \<lparr>nodes = [(''a'', mk_node ''a'' [(''b'', mk_spec Dev ''^1.0.0'')] [''b'']),
                      (''b'', mk_node ''b'' [(''a'', mk_spec Dev ''^1.0.0'')] [''a''])],
             edges = [(''a'', [''b'']), (''b'', [''a''])]\<rparr> False) \<and>
   compute_publishing_order \<lparr>nodes = [(''a'', mk_node ''a'' [(''b'', mk_spec Dev ''^1.0.0'')] [''b'']),
                      (''b'', mk_node ''b'' [(''a'', mk_spec Dev ''^1.0.0'')] [''a''])],
             edges = [(''a'', [''b'']), (''b'', [''a''])]\<rparr> = Inr [''a'', ''b''] \<and>
   topological_sort \<lparr>nodes = [(''a'', mk_node ''a'' [(''b'', mk_spec Dev ''^1.0.0'')] [''b'']),
                      (''b'', mk_node ''b'' [(''a'', mk_spec Dev ''^1.0.0'')] [''a''])],
             edges = [(''a'', [''b'']), (''b'', [''a''])]\<rparr> False = Inl (Error [''a'', ''b''])"
proof -
  let ?g = "\<lparr>nodes = [(''a'', mk_node ''a'' [(''b'', mk_spec Dev ''^1.0.0'')] [''b'']),
                      (''b'', mk_node ''b'' [(''a'', mk_spec Dev ''^1.0.0'')] [''a''])],
             edges = [(''a'', [''b'']), (''b'', [''a''])]\<rparr>"
  have wf: "wf_graph ?g" by (simp add: wf_graph_def mk_node_def)
  have si: "sort_items ?g True = [(''a'', []), (''b'', [])]"
      "sort_items ?g False = [(''a'', [''b'']), (''b'', [''a''])]"
    by code_simp+
  have "retained_edges ?g True = {}"
    unfolding item_rel_sort_items [OF wf, symmetric] si by (simp add: item_rel_code)
  then have ac: "acyclic (retained_edges ?g True)" by (simp add: acyclic_empty)
  have "retained_edges ?g False = {(''b'', ''a''), (''a'', ''b'')}"
    unfolding item_rel_sort_items [OF wf, symmetric] si by (simp add: item_rel_code)
  then have "(''a'', ''b'') \<in> retained_edges ?g False" "(''b'', ''a'') \<in> retained_edges ?g False"
    by simp_all
  then have "(''a'', ''a'') \<in> (retained_edges ?g False)\<^sup>+" by (rule trancl_into_trancl [OF r_into_trancl])
  then have cyc: "\<not> acyclic (retained_edges ?g False)" by (auto simp: acyclic_def)
  have c: "compute_publishing_order ?g = Inr [''a'', ''b'']" by code_simp
  have f: "topological_sort ?g False = Inl (Error [''a'', ''b''])" by code_simp
  note t = dev_cycles_do_not_block [OF wf ac cyc]
  show ?thesis using wf ac cyc c f t by (intro conjI)
qed

section \<open>Invariants of the cycle search\<close>

lemma set_set_delete [simp]: "set (set_delete x xs) = set xs - {x}"
  by (auto simp: set_delete_def)

lemma indexOf_mem: "x \<in> set xs \<Longrightarrow> indexOf xs x = int (length (takeWhile (\<lambda>y. y \<noteq> x) xs))"
  by (induction xs) (auto simp: Let_def)

lemma slice_indexOf: "x \<in> set xs \<Longrightarrow> slice xs (indexOf xs x) = dropWhile (\<lambda>y. y \<noteq> x) xs"
  by (simp add: indexOf_mem slice_def dropWhile_eq_drop)

lemma back_cycle_mem: "d \<in> set path \<Longrightarrow> back_cycle path d = dropWhile (\<lambda>y. y \<noteq> d) path @ [d]"
  by (simp add: back_cycle_def slice_indexOf)

lemma hd_dropWhile_mem: "d \<in> set xs \<Longrightarrow> d \<in> set (dropWhile (\<lambda>y. y \<noteq> d) xs)"
  by (induction xs) auto

lemma last_dropWhile_mem: "d \<in> set xs \<Longrightarrow> last xs \<in> set (dropWhile (\<lambda>y. y \<noteq> d) xs)"
  by (induction xs) auto

lemma back_cycle_set: "d \<in> set path \<Longrightarrow> set (back_cycle path d) = set (dropWhile (\<lambda>y. y \<noteq> d) path)"
  using hd_dropWhile_mem [of d path] by (auto simp: back_cycle_mem)

lemma back_cycle_subset: "d \<in> set path \<Longrightarrow> set (back_cycle path d) \<subseteq> set path"
  by (auto simp: back_cycle_set dest: set_dropWhileD)

lemma back_cycle_last: "d \<in> set path \<Longrightarrow> last path \<in> set (back_cycle path d)"
  by (simp add: back_cycle_set last_dropWhile_mem)

lemma suffix_set_inj:
  "distinct xs \<Longrightarrow> a \<in> set xs \<Longrightarrow> b \<in> set xs \<Longrightarrow>
   set (dropWhile (\<lambda>y. y \<noteq> a) xs) = set (dropWhile (\<lambda>y. y \<noteq> b) xs) \<Longrightarrow> a = b"
proof (induction xs)
  case Nil
  then show ?case by simp
next
  case (Cons y ys)
  show ?case
  proof (cases "y = a"; cases "y = b")
    assume "y = a" "y \<noteq> b"
    then have "y \<in> set (dropWhile (\<lambda>y. y \<noteq> b) ys)" using Cons.prems(4) by auto
    then have "y \<in> set ys" by (rule set_dropWhileD)
    then show ?thesis using Cons.prems(1) by simp
  next
    assume "y \<noteq> a" "y = b"
    then have "y \<in> set (dropWhile (\<lambda>y. y \<noteq> a) ys)" using Cons.prems(4) by auto
    then have "y \<in> set ys" by (rule set_dropWhileD)
    then show ?thesis using Cons.prems(1) by simp
  next
    assume "y \<noteq> a" "y \<noteq> b"
    then show ?thesis using Cons by simp
  qed simp
qed

lemma back_cycle_inj:
  "distinct path \<Longrightarrow> a \<in> set path \<Longrightarrow> b \<in> set path \<Longrightarrow>
   set (back_cycle path a) = set (back_cycle path b) \<Longrightarrow> a = b"
  using suffix_set_inj [of path a b] by (simp add: back_cycle_set)

lemma record_cycle_eq:
  "record_cycle path d st =
     (if \<exists>c \<in> set (cycles st). cycle_key c = cycle_key (back_cycle path d) then st
      else st\<lparr>cycles := cycles st @ [back_cycle path d]\<rparr>)"
  by (simp add: record_cycle_def back_cycle_def Let_def list_ex_iff)

lemma extends_refl: "extends st st"
  by (simp add: extends_def)

lemma extends_trans: "extends a b \<Longrightarrow> extends b c \<Longrightarrow> extends a c"
  by (auto simp: extends_def)

lemma closes_tail: "closes path (x # rest) st \<Longrightarrow> closes path rest st"
  by (simp add: closes_def)

lemma post_deps_refl: "cycles_ok st \<Longrightarrow> post_deps path st st"
  by (simp add: post_deps_def extends_refl)

lemma post_deps_after_dfs:
  assumes "post_dfs st st1" "post_deps path st1 st'"
  shows "post_deps path st st'"
  unfolding post_deps_def
proof (intro conjI ballI)
  show "cycles_ok st'" using assms(2) by (simp add: post_deps_def)
  show "extends st st'" using assms extends_trans by (auto simp: post_deps_def post_dfs_def)
next
  fix c assume c: "c \<in> set (cycles st') - set (cycles st)"
  have v: "set (visited st) \<subseteq> set (visited st1)" using assms(1) by (simp add: post_dfs_def extends_def)
  show "\<not> set c \<subseteq> set (visited st) \<or> (set c \<subseteq> set path \<and> last path \<in> set c)"
  proof (cases "c \<in> set (cycles st1)")
    case True
    then show ?thesis using c assms(1) by (simp add: post_dfs_def)
  next
    case False
    then have "\<not> set c \<subseteq> set (visited st1) \<or> (set c \<subseteq> set path \<and> last path \<in> set c)"
      using c assms(2) by (simp add: post_deps_def)
    then show ?thesis using v by blast
  qed
qed

lemma record_cycle_step:
  assumes os: "on_stack path st" and ok: "cycles_ok st" and cl: "closes path ((d, spec) # rest) st"
    and d: "d \<in> set (rec_stack st)"
  shows "on_stack path (record_cycle path d st)"
    and "cycles_ok (record_cycle path d st)"
    and "closes path rest (record_cycle path d st)"
    and "post_deps path st (record_cycle path d st)"
proof -
  let ?c = "back_cycle path d"
  let ?st' = "record_cycle path d st"
  have dp: "d \<in> set path" using d os by (simp add: on_stack_def)
  have sub: "set ?c \<subseteq> set path" by (rule back_cycle_subset [OF dp])
  have lst: "last path \<in> set ?c" by (rule back_cycle_last [OF dp])
  show 1: "on_stack path ?st'" using os by (simp add: on_stack_def record_cycle_eq)
  show 2: "cycles_ok ?st'"
  proof (cases "\<exists>c \<in> set (cycles st). cycle_key c = cycle_key ?c")
    case True
    then show ?thesis using ok by (simp add: record_cycle_eq)
  next
    case False
    have "set ?c \<notin> set ` set (cycles st)"
    proof
      assume "set ?c \<in> set ` set (cycles st)"
      then obtain c where c: "c \<in> set (cycles st)" "set c = set ?c" by auto
      then have "c = ?c" using cl dp by (simp add: closes_def)
      then show False using False c(1) by blast
    qed
    moreover have "cycle_key ?c \<notin> cycle_key ` set (cycles st)" using False by force
    moreover have "set ?c \<subseteq> set (visited st)" using sub os by (auto simp: on_stack_def)
    ultimately show ?thesis using ok False by (auto simp: record_cycle_eq cycles_ok_def)
  qed
  show "closes path rest ?st'"
    unfolding closes_def
  proof (intro ballI impI)
    fix c e assume c: "c \<in> set (cycles ?st')" and e: "e \<in> fst ` set rest" "e \<in> set path"
      and eq: "set c = set (back_cycle path e)"
    show "c = back_cycle path e"
    proof (cases "c \<in> set (cycles st)")
      case True
      have "closes path rest st" using cl by (rule closes_tail)
      then show ?thesis using True e eq unfolding closes_def by blast
    next
      case False
      then have "c = ?c" using c by (auto simp: record_cycle_eq split: if_splits)
      moreover have "distinct path" using os by (simp add: on_stack_def)
      ultimately have "d = e" using back_cycle_inj [OF _ dp e(2)] eq by simp
      then show ?thesis using \<open>c = ?c\<close> by simp
    qed
  qed
  show "post_deps path st ?st'"
    unfolding post_deps_def
  proof (intro conjI ballI)
    show "cycles_ok ?st'" by (rule 2)
    show "extends st ?st'" by (auto simp: extends_def record_cycle_eq)
  next
    fix c assume "c \<in> set (cycles ?st') - set (cycles st)"
    then have "c = ?c" by (auto simp: record_cycle_eq split: if_splits)
    then show "\<not> set c \<subseteq> set (visited st) \<or> (set c \<subseteq> set path \<and> last path \<in> set c)"
      using sub lst by simp
  qed
qed

lemma post_deps_trans:
  assumes "post_deps path st st1" "post_deps path st1 st'"
  shows "post_deps path st st'"
  unfolding post_deps_def
proof (intro conjI ballI)
  show "cycles_ok st'" using assms(2) by (simp add: post_deps_def)
  show "extends st st'" using assms extends_trans by (auto simp: post_deps_def)
next
  fix c assume c: "c \<in> set (cycles st') - set (cycles st)"
  have v: "set (visited st) \<subseteq> set (visited st1)" using assms(1) by (simp add: post_deps_def extends_def)
  show "\<not> set c \<subseteq> set (visited st) \<or> (set c \<subseteq> set path \<and> last path \<in> set c)"
  proof (cases "c \<in> set (cycles st1)")
    case True
    then show ?thesis using c assms(1) by (simp add: post_deps_def)
  next
    case False
    then have "\<not> set c \<subseteq> set (visited st1) \<or> (set c \<subseteq> set path \<and> last path \<in> set c)"
      using c assms(2) by (simp add: post_deps_def)
    then show ?thesis using v by blast
  qed
qed

lemma closes_after_dfs:
  assumes cl: "closes path rest st" and os: "on_stack path st" and post: "post_dfs st st1"
  shows "closes path rest st1"
  unfolding closes_def
proof (intro ballI impI)
  fix c e assume c: "c \<in> set (cycles st1)" and e: "e \<in> fst ` set rest" "e \<in> set path"
    and eq: "set c = set (back_cycle path e)"
  show "c = back_cycle path e"
  proof (cases "c \<in> set (cycles st)")
    case True
    then show ?thesis using cl e eq unfolding closes_def by blast
  next
    case False
    then have "\<not> set c \<subseteq> set (visited st)" using c post by (simp add: post_dfs_def)
    moreover have "set (back_cycle path e) \<subseteq> set (visited st)"
      using back_cycle_subset [OF e(2)] os by (auto simp: on_stack_def)
    ultimately show ?thesis using eq by simp
  qed
qed

lemma on_stack_after:
  assumes "on_stack path st" "extends st st1"
  shows "on_stack path st1"
  using assms by (auto simp: on_stack_def extends_def)

lemma dfs_deps_inv:
  assumes dfs: "\<And>nm path st st'. dfs fuel g include_spec nm path st = Some st' \<Longrightarrow>
            on_stack path st \<Longrightarrow> cycles_ok st \<Longrightarrow> nm \<notin> set (visited st) \<Longrightarrow> post_dfs st st'"
  shows "dfs_deps fuel g include_spec path deps st = Some st' \<Longrightarrow> on_stack path st \<Longrightarrow>
         cycles_ok st \<Longrightarrow> closes path deps st \<Longrightarrow> post_deps path st st'"
proof (induction deps arbitrary: st)
  case Nil
  then show ?case by (simp add: post_deps_refl)
next
  case (Cons x rest)
  obtain d spec where x: "x = (d, spec)" by (cases x)
  have cl: "closes path rest st" using Cons.prems(4) by (rule closes_tail)
  consider (descend) "include_spec spec" "map_has (nodes g) d" "d \<notin> set (visited st)"
    | (back_edge) "include_spec spec" "map_has (nodes g) d" "d \<in> set (visited st)" "d \<in> set (rec_stack st)"
    | (skip) "\<not> include_spec spec \<or> \<not> map_has (nodes g) d \<or> (d \<in> set (visited st) \<and> d \<notin> set (rec_stack st))"
    by blast
  then show ?case
  proof cases
    case descend
    then obtain st1 where st1: "dfs fuel g include_spec d path st = Some st1"
        "dfs_deps fuel g include_spec path rest st1 = Some st'"
      using Cons.prems(1) by (auto simp: x split: option.splits)
    have p1: "post_dfs st st1"
      by (rule dfs [OF st1(1) Cons.prems(2,3) descend(3)])
    have os1: "on_stack path st1"
      using on_stack_after [OF Cons.prems(2)] p1 by (simp add: post_dfs_def)
    have ok1: "cycles_ok st1" using p1 by (simp add: post_dfs_def)
    have cl1: "closes path rest st1" by (rule closes_after_dfs [OF cl Cons.prems(2) p1])
    have "post_deps path st1 st'" by (rule Cons.IH [OF st1(2) os1 ok1 cl1])
    then show ?thesis using post_deps_after_dfs [OF p1] by blast
  next
    case back_edge
    let ?st1 = "record_cycle path d st"
    have r: "dfs_deps fuel g include_spec path rest ?st1 = Some st'"
      using Cons.prems(1) back_edge by (simp add: x)
    have cl0: "closes path ((d, spec) # rest) st" using Cons.prems(4) by (simp add: x)
    note step = record_cycle_step [OF Cons.prems(2,3) cl0 back_edge(4)]
    have "post_deps path ?st1 st'" by (rule Cons.IH [OF r step(1,2,3)])
    then show ?thesis using post_deps_trans [OF step(4)] by blast
  next
    case skip
    then have "dfs_deps fuel g include_spec path rest st = Some st'"
      using Cons.prems(1) by (auto simp: x split: if_splits)
    then show ?thesis by (rule Cons.IH [OF _ Cons.prems(2,3) cl])
  qed
qed

lemma closes_fresh:
  assumes ok: "cycles_ok st" and nm: "nm \<notin> set (visited st)"
  shows "closes (path @ [nm]) deps
           (st\<lparr>visited := set_add nm (visited st), rec_stack := set_add nm (rec_stack st)\<rparr>)"
  unfolding closes_def
proof (intro ballI impI)
  fix c e
  assume c: "c \<in> set (cycles (st\<lparr>visited := set_add nm (visited st), rec_stack := set_add nm (rec_stack st)\<rparr>))"
    and e: "e \<in> set (path @ [nm])" and eq: "set c = set (back_cycle (path @ [nm]) e)"
  have "nm \<in> set (back_cycle (path @ [nm]) e)" using back_cycle_last [OF e] by simp
  moreover have "set c \<subseteq> set (visited st)" using c ok by (simp add: cycles_ok_def)
  ultimately show "c = back_cycle (path @ [nm]) e" using eq nm by auto
qed

lemma dfs_inv:
  "dfs fuel g include_spec nm path st = Some st' \<Longrightarrow> on_stack path st \<Longrightarrow> cycles_ok st \<Longrightarrow>
   nm \<notin> set (visited st) \<Longrightarrow> post_dfs st st'"
proof (induction fuel arbitrary: nm path st st')
  case 0
  then show ?case by simp
next
  case (Suc fuel)
  let ?st1 = "st\<lparr>visited := set_add nm (visited st), rec_stack := set_add nm (rec_stack st)\<rparr>"
  let ?path1 = "path @ [nm]"
  have nr: "nm \<notin> set (rec_stack st)" "nm \<notin> set path"
    using Suc.prems(2,4) by (auto simp: on_stack_def)
  have os1: "on_stack ?path1 ?st1" using Suc.prems(2) nr by (auto simp: on_stack_def)
  have ok1: "cycles_ok ?st1" using Suc.prems(3) by (auto simp: cycles_ok_def)
  have ex1: "set (visited st) \<subseteq> set (visited ?st1)" "cycles ?st1 = cycles st" by auto
  show ?case
  proof (cases "map_of (nodes g) nm")
    case None
    then have "st' = ?st1\<lparr>rec_stack := set_delete nm (rec_stack ?st1)\<rparr>"
      using Suc.prems(1) by (simp add: Let_def)
    then show ?thesis
      using ok1 nr(1) by (auto simp: post_dfs_def cycles_ok_def extends_def)
  next
    case (Some node)
    then obtain st2 where st2: "dfs_deps fuel g include_spec ?path1 (dependencies node) ?st1 = Some st2"
        "st' = st2\<lparr>rec_stack := set_delete nm (rec_stack st2)\<rparr>"
      using Suc.prems(1) by (auto simp: Let_def split: option.splits)
    have cl1: "closes ?path1 (dependencies node) ?st1"
      by (rule closes_fresh [OF Suc.prems(3,4)])
    have p: "post_deps ?path1 ?st1 st2"
      by (rule dfs_deps_inv [OF Suc.IH st2(1) os1 ok1 cl1])
    have a: "cycles_ok st'" using p st2(2) by (simp add: post_deps_def cycles_ok_def)
    have b: "extends st st'"
      using p st2(2) nr(1) by (auto simp: post_deps_def extends_def)
    have c: "\<not> set c \<subseteq> set (visited st)" if h: "c \<in> set (cycles st') - set (cycles st)" for c
    proof -
      have "c \<in> set (cycles st2) - set (cycles ?st1)" using h st2(2) by simp
      then have "\<not> set c \<subseteq> set (visited ?st1) \<or> (set c \<subseteq> set ?path1 \<and> last ?path1 \<in> set c)"
        using p unfolding post_deps_def by blast
      then show ?thesis using Suc.prems(4) by auto
    qed
    show ?thesis unfolding post_dfs_def using a b c by blast
  qed
qed

lemma dfs_roots_inv:
  "dfs_roots fuel g include_spec roots st = Some st' \<Longrightarrow> set (rec_stack st) = {} \<Longrightarrow>
   cycles_ok st \<Longrightarrow> cycles_ok st'"
proof (induction roots arbitrary: st)
  case Nil
  then show ?case by simp
next
  case (Cons nm roots)
  show ?case
  proof (cases "nm \<in> set (visited st)")
    case True
    then show ?thesis using Cons by simp
  next
    case False
    then obtain st1 where st1: "dfs fuel g include_spec nm [] st = Some st1"
        "dfs_roots fuel g include_spec roots st1 = Some st'"
      using Cons.prems(1) by (auto split: option.splits)
    have "on_stack [] st" using Cons.prems(2) by (simp add: on_stack_def)
    then have "post_dfs st st1" using dfs_inv [OF st1(1) _ Cons.prems(3) False] by blast
    then have "cycles_ok st1" "set (rec_stack st1) = {}"
      using Cons.prems(2) by (simp_all add: post_dfs_def extends_def)
    then show ?thesis using Cons.IH [OF st1(2)] by blast
  qed
qed

lemma find_cycles_distinct:
  assumes "find_cycles g include_spec = Some cs"
  shows "distinct (map set cs) \<and> distinct (map cycle_key cs)"
proof -
  obtain st' where st': "dfs_roots (Suc (length (nodes g))) g include_spec (map fst (nodes g))
       \<lparr>cycles = [], visited = [], rec_stack = []\<rparr> = Some st'" "cs = cycles st'"
    using assms by (auto simp: find_cycles_def)
  have "cycles_ok st'"
    by (rule dfs_roots_inv [OF st'(1)]) (simp_all add: cycles_ok_def)
  then show ?thesis using st'(2) by (simp add: cycles_ok_def)
qed

section \<open>Claims about \<open>detect_cycles_by_type\<close>\<close>

text \<open>Claim C6. In one call of \<open>detect_cycles_by_type\<close>, within \<open>production_cycles\<close> and
  within \<open>dev_cycles\<close> no two reported cycles have the same node set, and no two have the
  same dedupe key (the sorted, comma-joined names of the cycle array); the call returns for
  every graph.\<close>

theorem detect_cycles_no_duplicates:
  "\<exists>pc dc. detect_cycles_by_type g = Some (pc, dc) \<and>
     distinct (map set pc) \<and> distinct (map set dc) \<and>
     distinct (map cycle_key pc) \<and> distinct (map cycle_key dc)"
proof -
  obtain pc dc where c: "detect_cycles_by_type g = Some (pc, dc)"
    using detect_cycles_by_type_total by blast
  then have "find_cycles g (\<lambda>spec. spec_type spec \<noteq> Dev) = Some pc"
      "find_cycles g (\<lambda>spec. spec_type spec = Dev) = Some dc"
    by (auto simp: detect_cycles_by_type_def split: option.splits)
  then show ?thesis using c find_cycles_distinct by blast
qed

section \<open>The snapshot of \<open>toJSON\<close>\<close>

lemma push_tos_eq: "push_tos from_name tos acc = acc @ map (\<lambda>to_name. (from_name, to_name)) tos"
  by (induction tos arbitrary: acc) simp_all

lemma push_edges_eq:
  "push_edges es acc = acc @ concat (map (\<lambda>(from_name, tos). map (\<lambda>to_name. (from_name, to_name)) tos) es)"
  by (induction es arbitrary: acc) (auto simp: push_tos_eq)

lemma toJSON_snapshot:
  "map json_name (json_nodes (toJSON g)) = map (name \<circ> snd) (nodes g) \<and>
   set (json_edges (toJSON g)) = {(k, m). \<exists>s. (k, s) \<in> set (edges g) \<and> m \<in> set s}"
  by (auto simp: toJSON_def push_edges_eq)

section \<open>The scenarios of the spec, evaluated\<close>

text \<open>Scenario A: \<open>a\<close> depends on \<open>b\<close> (prod); the publishing order is \<open>b\<close>, \<open>a\<close>.\<close>

lemma scenario_a:
  "map_sum id compute_publishing_order
     (build_from_repos [mk_repo ''a'' (Some ''1.0.0'') [(''b'', ''^1.0.0'')] [] [],
                        mk_repo ''b'' (Some ''1.0.0'') [] [] []])
   = Inr (Inr [''b'', ''a''])"
  by code_simp

text \<open>Scenario B: \<open>a\<close> and \<open>b\<close> depend on each other (dev); the publishing order has both
  names, and the cycle is reported as a dev cycle only.\<close>

lemma scenario_b:
  "map_sum id (\<lambda>g. (compute_publishing_order g, detect_cycles_by_type g))
     (build_from_repos [mk_repo ''a'' (Some ''1.0.0'') [] [] [(''b'', ''^1.0.0'')],
                        mk_repo ''b'' (Some ''1.0.0'') [] [] [(''a'', ''^1.0.0'')]])
   = Inr (Inr [''a'', ''b''], Some ([], [[''a'', ''b'', ''a'']]))"
  by code_simp

text \<open>Scenario C: \<open>a\<close> and \<open>b\<close> depend on each other (prod); the sort fails, and the cycle is
  reported as a production cycle.\<close>

lemma scenario_c:
  "map_sum id (\<lambda>g. (topological_sort g True, detect_cycles_by_type g))
     (build_from_repos [mk_repo ''a'' (Some ''1.0.0'') [(''b'', ''^1.0.0'')] [] [],
                        mk_repo ''b'' (Some ''1.0.0'') [(''a'', ''^1.0.0'')] [] []])
   = Inr (Inl (Error [''a'', ''b'']), Some ([[''a'', ''b'', ''a'']], []))"
  by code_simp

text \<open>Scenario D: \<open>a\<close> has the peer dependency \<open>ext\<close>, which is no node; it is reported as
  a missing peer, and it has no dependents.\<close>

lemma scenario_d:
  "map_sum id (\<lambda>g. (map_option missing_peers (analyze g), get_dependents g ''ext''))
     (build_from_repos [mk_repo ''a'' (Some ''1.0.0'') [] [(''ext'', ''^1.0.0'')] []])
   = Inr (Some [(''a'', ''ext'')], [])"
  by code_simp

end
